theory Spec2Isabelle
  imports Main "HOL-Library.Word" "HOL-Library.Sublist"
begin

unbundle bit_operations_syntax

section \<open>Trace records and the default trace ID (internal/trace/trace.go)\<close>

text \<open>
  The struct \<open>Step\<close> of trace.go, field by field. Go strings are byte sequences
  (\<open>string\<close>); \<open>int\<close> and \<open>int64\<close> are 64-bit machine integers, read as signed
  with \<open>sint\<close>. Lengths and indices of slices, which are never negative, are natural
  numbers.
\<close>

record Step =
  TraceID :: string
  UserID :: string
  Path :: string
  Method :: string
  StatusCode :: "64 word"
  LatencyMs :: "64 word"
  IP :: string
  UserAgent :: string
  CreatedAt :: "64 word"

definition zeroStep :: Step where
  "zeroStep = \<lparr>TraceID = [], UserID = [], Path = [], Method = [], StatusCode = 0,
     LatencyMs = 0, IP = [], UserAgent = [], CreatedAt = 0\<rparr>"

type_synonym byte = "8 word"

definition bytesOf :: "string \<Rightarrow> byte list" where
  \<comment> \<open>the conversion \<open>[]byte(token)\<close>: the bytes of the string, unchanged\<close>
  "bytesOf s = map of_char s"

definition hextable :: string where
  "hextable = ''0123456789abcdef''"

fun hexEncodeToString :: "byte list \<Rightarrow> string" where
  \<comment> \<open>encoding/hex: two digits per byte, \<open>hextable[v >> 4]\<close> then \<open>hextable[v & 0x0f]\<close>\<close>
  "hexEncodeToString [] = []"
| "hexEncodeToString (v # vs) =
     hextable ! unat (drop_bit 4 v) # hextable ! unat (v AND 0x0f) # hexEncodeToString vs"

definition defaultTraceIDGenerator :: "(byte list \<Rightarrow> byte list) \<Rightarrow> string \<Rightarrow> string \<Rightarrow> string" where
  \<comment> \<open>\<open>sum256\<close> stands for crypto/sha256's \<open>Sum256\<close>, a library function outside the
      repository; \<open>fmt.Sprintf("%s:%s", a, b)\<close> is \<open>a\<close>, a colon, \<open>b\<close>.\<close>
  "defaultTraceIDGenerator sum256 userID token =
     (let h = sum256 (bytesOf token) in userID @ '':'' @ hexEncodeToString h)"

definition tokenAppears :: "string \<Rightarrow> string \<Rightarrow> bool" where
  \<comment> \<open>the raw token occurs in the trace ID as a contiguous run of bytes\<close>
  "tokenAppears token traceID = sublist token traceID"

section \<open>Go slices over an explicit store\<close>

text \<open>
  A Go slice is a header (backing array, offset, length, capacity); the records live in
  the backing array. Two headers over one array share its elements, which is what the
  worker's \<open>buf = buf[:0]\<close> and the flush goroutine's \<open>logs\<close> depend on, so arrays are
  kept in a store indexed by address.
\<close>

record slice =
  s_arr :: nat
  s_off :: nat
  s_len :: nat
  s_cap :: nat

record heap =
  arrays :: "nat \<Rightarrow> Step list"
  nextArr :: nat

definition emptyHeap :: heap where
  "emptyHeap = \<lparr>arrays = (\<lambda>_. []), nextArr = 0\<rparr>"

definition makeSlice :: "heap \<Rightarrow> nat \<Rightarrow> heap \<times> slice" where
  \<comment> \<open>\<open>make([]Step, 0, c)\<close>: a fresh array of \<open>c\<close> zero records, length 0\<close>
  "makeSlice h c =
     (h\<lparr>arrays := (arrays h)(nextArr h := replicate c zeroStep), nextArr := Suc (nextArr h)\<rparr>,
      \<lparr>s_arr = nextArr h, s_off = 0, s_len = 0, s_cap = c\<rparr>)"

definition sliceRead :: "heap \<Rightarrow> slice \<Rightarrow> Step list" where
  \<comment> \<open>the elements \<open>s[0], ..., s[len(s)-1]\<close> as the store holds them now\<close>
  "sliceRead h s = take (s_len s) (drop (s_off s) (arrays h (s_arr s)))"

definition growCap :: "nat \<Rightarrow> nat \<Rightarrow> nat" where
  \<comment> \<open>capacity of the array that \<open>append\<close> allocates when the old one is full: at least
      the length needed, twice the old capacity for small slices. The runtime rounds the
      result up to an allocation size class, which the model leaves out; the worker's
      \<open>buf\<close> only ever grows from capacity 0 (\<open>batchSize = 0\<close>).\<close>
  "growCap oldCap needed = max needed (2 * oldCap)"

definition appendSlice :: "heap \<Rightarrow> slice \<Rightarrow> Step \<Rightarrow> heap \<times> slice" where
  \<comment> \<open>\<open>append(s, x)\<close>: in place when \<open>len(s) < cap(s)\<close>, into a fresh array otherwise\<close>
  "appendSlice h s x =
     (if s_len s < s_cap s then
        (h\<lparr>arrays := (arrays h)(s_arr s := (arrays h (s_arr s))[s_off s + s_len s := x])\<rparr>,
         s\<lparr>s_len := Suc (s_len s)\<rparr>)
      else
        (let c = growCap (s_cap s) (Suc (s_len s)) in
         (h\<lparr>arrays := (arrays h)(nextArr h :=
               sliceRead h s @ [x] @ replicate (c - Suc (s_len s)) zeroStep),
             nextArr := Suc (nextArr h)\<rparr>,
          \<lparr>s_arr = nextArr h, s_off = 0, s_len = Suc (s_len s), s_cap = c\<rparr>)))"

definition resliceToZero :: "slice \<Rightarrow> slice" where
  \<comment> \<open>\<open>s[:0]\<close>: the same array, offset and capacity, length 0\<close>
  "resliceToZero s = s\<lparr>s_len := 0\<rparr>"

definition sliceOk :: "heap \<Rightarrow> slice \<Rightarrow> bool" where
  \<comment> \<open>the header lies inside its allocated array\<close>
  "sliceOk h s = (s_len s \<le> s_cap s \<and> s_off s + s_cap s \<le> length (arrays h (s_arr s))
     \<and> s_arr s < nextArr h)"

section \<open>The worker: startWorker and flush's hand-off\<close>

datatype panic = TickerNonPositive | MakeSliceCap | MakeChanSize | Raised string

text \<open>
  The outcomes of the worker's select: a record received from \<open>buffer\<close>, the channel
  found closed (\<open>ok\<close> false), a tick of the ticker. The package itself never closes the
  channel; the worker's branch for it is modelled as it is written.
\<close>

datatype selected = Received Step | ChanClosed | Ticked

text \<open>
  The worker's variables and what it has done so far: \<open>w_spawned\<close> lists the
  \<open>logs\<close> headers of the goroutines that \<open>flush\<close> has started (oldest first);
  \<open>w_returned\<close> says that \<open>startWorker\<close> has returned.
\<close>

record worker =
  w_heap :: heap
  w_buf :: slice
  w_spawned :: "slice list"
  w_returned :: bool

definition flush :: "worker \<Rightarrow> slice \<Rightarrow> worker" where
  \<comment> \<open>\<open>flush(db, logs)\<close> as its caller sees it: nothing for an empty slice, otherwise
      \<open>go func(logs []Step) {...}(logs)\<close> and return at once\<close>
  "flush st logs = (if s_len logs = 0 then st else st\<lparr>w_spawned := w_spawned st @ [logs]\<rparr>)"

definition startWorkerInit :: "64 word \<Rightarrow> 64 word \<Rightarrow> heap \<Rightarrow> panic + worker" where
  \<comment> \<open>\<open>time.NewTicker(interval)\<close> panics for a non-positive interval;
      \<open>make([]Step, 0, batchSize*2)\<close> panics for a negative capacity (the product wraps
      in 64 bits). It also panics or aborts for a capacity beyond what the runtime can
      allocate; the model has no memory limit.\<close>
  "startWorkerInit interval batchSize h =
     (if sint interval \<le> 0 then Inl TickerNonPositive
      else let c = sint (batchSize * 2) in
        if c < 0 then Inl MakeSliceCap
        else (case makeSlice h (nat c) of (h', buf) \<Rightarrow>
          Inr \<lparr>w_heap = h', w_buf = buf, w_spawned = [], w_returned = False\<rparr>))"

fun workerIteration :: "64 word \<Rightarrow> worker \<Rightarrow> selected \<Rightarrow> worker" where
  "workerIteration batchSize st ChanClosed =
     (let st1 = (if s_len (w_buf st) > 0 then flush st (w_buf st) else st)
      in st1\<lparr>w_returned := True\<rparr>)"
| "workerIteration batchSize st (Received log) =
     (case appendSlice (w_heap st) (w_buf st) log of (h', buf') \<Rightarrow>
        let st1 = st\<lparr>w_heap := h', w_buf := buf'\<rparr> in
        if int (s_len buf') \<ge> sint batchSize
        then (flush st1 buf')\<lparr>w_buf := resliceToZero buf'\<rparr>
        else st1)"
| "workerIteration batchSize st Ticked =
     (if s_len (w_buf st) > 0
      then (flush st (w_buf st))\<lparr>w_buf := resliceToZero (w_buf st)\<rparr>
      else st)"

fun workerLoop :: "64 word \<Rightarrow> worker \<Rightarrow> selected list \<Rightarrow> worker" where
  \<comment> \<open>the \<open>for { select {...} }\<close> loop on the successive outcomes of the select; nothing
      runs after the return\<close>
  "workerLoop batchSize st [] = st"
| "workerLoop batchSize st (e # es) =
     (if w_returned st then st else workerLoop batchSize (workerIteration batchSize st e) es)"

definition startWorker :: "64 word \<Rightarrow> 64 word \<Rightarrow> heap \<Rightarrow> selected list \<Rightarrow> panic + worker" where
  "startWorker interval batchSize h es =
     (case startWorkerInit interval batchSize h of
        Inl p \<Rightarrow> Inl p
      | Inr st \<Rightarrow> Inr (workerLoop batchSize st es))"

section \<open>The flush goroutine: flushWithRetry, the retry loop, the deferred recover\<close>

text \<open>
  The database is outside the repository: \<open>db.CreateInBatches(batch, batchSize).Error\<close>
  is a parameter \<open>w\<close> of the model, a function of the store's state \<open>'db\<close>, the chunk
  and the batch size that returns no error, an error, or panics. What a goroutine
  does is recorded as a list of events: every call of \<open>flushWithRetry\<close>, every call of
  \<open>CreateInBatches\<close> with its chunk and outcome, every \<open>time.Sleep\<close> (in nanoseconds)
  and every log line.
\<close>

datatype db_result = DbOk | DbError string | DbPanic string

datatype flush_error = BatchFailed nat nat nat string
  \<comment> \<open>\<open>fmt.Errorf("failed to create batch %d-%d (attempt %d): %v", i, end-1, attempt, err)\<close>\<close>

datatype event =
    FlushAttempt nat
  | Create "Step list" nat db_result
  | Sleep nat
  | LogPanic panic
  | LogFailed nat flush_error
  | LogSuccess nat

datatype 'a outcome = Returns 'a | Panics panic

type_synonym 'db createInBatches = "'db \<Rightarrow> Step list \<Rightarrow> nat \<Rightarrow> db_result \<times> 'db"

definition second :: nat where
  "second = 1000000000"

function flushChunks ::
  "'db createInBatches \<Rightarrow> Step list \<Rightarrow> nat \<Rightarrow> nat \<Rightarrow> 'db
     \<Rightarrow> flush_error option outcome \<times> 'db \<times> event list" where
  \<comment> \<open>the loop \<open>for i := 0; i < len(logs); i += batchSize\<close> of flushWithRetry, from index
      \<open>i\<close>; \<open>batchSize\<close> is the function's local constant \<open>min(500, len(logs))\<close>\<close>
  "flushChunks w logs attempt i db =
     (let batchSize = min 500 (length logs) in
      if i < length logs then
        (let endIdx = min (i + batchSize) (length logs);
             batch = take (endIdx - i) (drop i logs) in
         case w db batch batchSize of
           (DbOk, db') \<Rightarrow>
             (case flushChunks w logs attempt (i + batchSize) db' of
                (r, db'', evs) \<Rightarrow> (r, db'', Create batch batchSize DbOk # evs))
         | (DbError e, db') \<Rightarrow>
             (Returns (Some (BatchFailed i (endIdx - 1) attempt e)), db',
              [Create batch batchSize (DbError e)])
         | (DbPanic p, db') \<Rightarrow>
             (Panics (Raised p), db', [Create batch batchSize (DbPanic p)]))
      else (Returns None, db, []))"
  by pat_completeness auto

termination
  by (relation "measure (\<lambda>(w, logs, attempt, i, db). length logs - i)") auto

definition flushWithRetry ::
  "'db createInBatches \<Rightarrow> 'db \<Rightarrow> Step list \<Rightarrow> nat
     \<Rightarrow> flush_error option outcome \<times> 'db \<times> event list" where
  "flushWithRetry w db logs attempt =
     (case flushChunks w logs attempt 0 db of
        (r, db', evs) \<Rightarrow> (r, db', FlushAttempt attempt # evs))"

function retryLoop ::
  "'db createInBatches \<Rightarrow> Step list \<Rightarrow> nat \<Rightarrow> nat \<Rightarrow> 'db
     \<Rightarrow> unit outcome \<times> 'db \<times> event list" where
  \<comment> \<open>\<open>for attempt := 1; attempt <= maxRetries; attempt++\<close> of the goroutine, from
      \<open>attempt\<close>\<close>
  "retryLoop w logs maxRetries attempt db =
     (if attempt \<le> maxRetries then
        (case flushWithRetry w db logs attempt of
           (Panics p, db', evs) \<Rightarrow> (Panics p, db', evs)
         | (Returns (Some err), db', evs) \<Rightarrow>
             if attempt = maxRetries
             then (Returns (), db', evs @ [LogFailed maxRetries err])
             else (case retryLoop w logs maxRetries (attempt + 1) db' of
                     (r, db'', evs') \<Rightarrow> (r, db'', evs @ Sleep (attempt * second) # evs'))
         | (Returns None, db', evs) \<Rightarrow>
             (Returns (), db', evs @ [LogSuccess (length logs)]))
      else (Returns (), db, []))"
  by pat_completeness auto

termination
  by (relation "measure (\<lambda>(w, logs, maxRetries, attempt, db). Suc maxRetries - attempt)") auto

definition deferredRecover ::
  "unit outcome \<times> 'db \<times> event list \<Rightarrow> unit outcome \<times> 'db \<times> event list" where
  \<comment> \<open>\<open>defer func() { if r := recover(); r != nil { log.Printf(...) } }()\<close>: a panicking
      body is stopped, the panic value logged, and the goroutine returns normally. The
      value that \<open>recover\<close> returns while panicking is never nil: the file uses the builtin
      \<open>min\<close> of Go 1.21, and from that version on \<open>panic(nil)\<close> carries a runtime error.\<close>
  "deferredRecover res =
     (case res of
        (Panics p, db, evs) \<Rightarrow> (Returns (), db, evs @ [LogPanic p])
      | (Returns u, db, evs) \<Rightarrow> (Returns u, db, evs))"

definition flushGoroutine ::
  "'db createInBatches \<Rightarrow> 'db \<Rightarrow> Step list \<Rightarrow> unit outcome \<times> 'db \<times> event list" where
  \<comment> \<open>the body of \<open>go func(logs []Step) {...}(logs)\<close>, with \<open>maxRetries := 3\<close>\<close>
  "flushGoroutine w db logs = deferredRecover (retryLoop w logs 3 1 db)"

fun createdChunks :: "event list \<Rightarrow> Step list list" where
  "createdChunks [] = []"
| "createdChunks (Create c n r # evs) = c # createdChunks evs"
| "createdChunks (e # evs) = createdChunks evs"

fun createResults :: "event list \<Rightarrow> db_result list" where
  "createResults [] = []"
| "createResults (Create c n r # evs) = r # createResults evs"
| "createResults (e # evs) = createResults evs"

fun attemptsMade :: "event list \<Rightarrow> nat list" where
  "attemptsMade [] = []"
| "attemptsMade (FlushAttempt n # evs) = n # attemptsMade evs"
| "attemptsMade (e # evs) = attemptsMade evs"

fun sleeps :: "event list \<Rightarrow> nat list" where
  "sleeps [] = []"
| "sleeps (Sleep d # evs) = d # sleeps evs"
| "sleeps (e # evs) = sleeps evs"

text \<open>No \<open>CreateInBatches\<close> call among the events panicked.\<close>

definition notPanicResult :: "db_result \<Rightarrow> bool" where
  "notPanicResult r = (case r of DbPanic q \<Rightarrow> False | _ \<Rightarrow> True)"

definition noPanic :: "event list \<Rightarrow> bool" where
  "noPanic evs = list_all notPanicResult (createResults evs)"

text \<open>
  The sizes of the chunks when \<open>n\<close> records are cut into consecutive chunks of at most
  \<open>m\<close> records, as the specification describes the chunking.
\<close>

fun chunkSizes :: "nat \<Rightarrow> nat \<Rightarrow> nat list" where
  "chunkSizes m n = (if n = 0 \<or> m = 0 then [] else min m n # chunkSizes m (n - m))"

text \<open>Every attempt marker among the events is followed at once by the write of the
  first chunk of \<open>logs\<close>.\<close>

definition startsOver :: "Step list \<Rightarrow> event list \<Rightarrow> bool" where
  "startsOver logs evs =
     (\<forall>pre n post. evs = pre @ FlushAttempt n # post \<longrightarrow>
        (\<exists>res rest. post = Create (take 500 logs) (min 500 (length logs)) res # rest))"

section \<open>Worker and flush goroutines together\<close>

text \<open>
  The process as far as the worker and its flush goroutines go. An action is one
  iteration of the worker's loop on an outcome of its select, or the run of the
  \<open>k\<close>-th started flush goroutine, which reads its \<open>logs\<close> from the store as the store
  is at that moment. A schedule is a list of actions; a goroutine's run is one action,
  so a schedule orders whole runs against the worker's iterations. The code reads the
  shared array again at every \<open>CreateInBatches\<close> call, so the worker can also change
  a batch between the chunks, attempts and sleeps of one run; schedules that fine are
  not modelled. A goroutine that ends panicking takes the process down
  (\<open>sy_crashed\<close>).
\<close>

record 'db system =
  sy_worker :: worker
  sy_db :: 'db
  sy_events :: "event list"
  sy_ran :: "nat list"
  sy_crashed :: "panic option"

datatype action = Select selected | RunFlush nat

fun sysStep :: "'db createInBatches \<Rightarrow> 64 word \<Rightarrow> 'db system \<Rightarrow> action \<Rightarrow> 'db system" where
  "sysStep w batchSize sy (Select e) =
     (if sy_crashed sy \<noteq> None \<or> w_returned (sy_worker sy) then sy
      else sy\<lparr>sy_worker := workerIteration batchSize (sy_worker sy) e\<rparr>)"
| "sysStep w batchSize sy (RunFlush k) =
     (if sy_crashed sy \<noteq> None \<or> k \<ge> length (w_spawned (sy_worker sy)) \<or> k \<in> set (sy_ran sy)
      then sy
      else (case flushGoroutine w (sy_db sy)
                  (sliceRead (w_heap (sy_worker sy)) (w_spawned (sy_worker sy) ! k)) of
              (Returns u, db', evs) \<Rightarrow>
                sy\<lparr>sy_db := db', sy_events := sy_events sy @ evs, sy_ran := sy_ran sy @ [k]\<rparr>
            | (Panics p, db', evs) \<Rightarrow>
                sy\<lparr>sy_db := db', sy_events := sy_events sy @ evs, sy_ran := sy_ran sy @ [k],
                   sy_crashed := Some p\<rparr>))"

definition sysRun :: "'db createInBatches \<Rightarrow> 64 word \<Rightarrow> 'db system \<Rightarrow> action list \<Rightarrow> 'db system" where
  "sysRun w batchSize sy acts = foldl (sysStep w batchSize) sy acts"

definition sysInit :: "worker \<Rightarrow> 'db \<Rightarrow> 'db system" where
  "sysInit st db = \<lparr>sy_worker = st, sy_db = db, sy_events = [], sy_ran = [], sy_crashed = None\<rparr>"

fun selects :: "action list \<Rightarrow> selected list" where
  "selects [] = []"
| "selects (Select e # acts) = e # selects acts"
| "selects (RunFlush k # acts) = selects acts"

section \<open>The buffer channel and the middleware's enqueue\<close>

text \<open>
  The package variable \<open>buffer\<close> is nil until \<open>Start\<close> assigns \<open>make(chan Step,
  cfg.BufferSize)\<close>; nothing in the package closes it. A channel holds its capacity and
  its queue; \<open>ch_recvWaiting\<close> says that the worker is blocked in its select, ready to
  receive. By the language's rules a nil channel is never ready, a send on a buffered
  channel can proceed if there is room in the buffer, and a send on an unbuffered channel
  (capacity 0) can proceed if a receiver is ready.
\<close>

record chan =
  ch_cap :: nat
  ch_queue :: "Step list"
  ch_recvWaiting :: bool

definition makeChan :: "64 word \<Rightarrow> panic + chan" where
  \<comment> \<open>\<open>make(chan Step, n)\<close> panics for a negative size. It also panics or aborts for a
      size beyond what the runtime can allocate; the model has no memory limit.\<close>
  "makeChan n =
     (if sint n < 0 then Inl MakeChanSize
      else Inr \<lparr>ch_cap = nat (sint n), ch_queue = [], ch_recvWaiting = False\<rparr>)"

definition sendReady :: "chan option \<Rightarrow> bool" where
  "sendReady b =
     (case b of
        None \<Rightarrow> False
      | Some c \<Rightarrow> if ch_cap c = 0 then ch_recvWaiting c else length (ch_queue c) < ch_cap c)"

datatype enqueued = Buffered | HandedOver | Dropped

definition chanSend :: "chan \<Rightarrow> Step \<Rightarrow> enqueued \<times> chan" where
  \<comment> \<open>a send that can proceed: into the buffer, or straight to the waiting receiver\<close>
  "chanSend c x =
     (if ch_cap c = 0 then (HandedOver, c\<lparr>ch_recvWaiting := False\<rparr>)
      else (Buffered, c\<lparr>ch_queue := ch_queue c @ [x]\<rparr>))"

definition selectSendDefault :: "chan option \<Rightarrow> Step \<Rightarrow> enqueued \<times> chan option" where
  \<comment> \<open>\<open>select { case buffer <- step: default: }\<close>: the send if it can proceed, the empty
      default branch otherwise\<close>
  "selectSendDefault b x =
     (case b of
        None \<Rightarrow> (Dropped, None)
      | Some c \<Rightarrow>
          if sendReady b then (case chanSend c x of (r, c') \<Rightarrow> (r, Some c'))
          else (Dropped, b))"

text \<open>
  The worker's side of the channel, and a run of sends and receives on it.
\<close>

definition workerSelectRecv :: "chan \<Rightarrow> Step option \<times> chan" where
  \<comment> \<open>the worker's \<open>case log, ok := <-buffer\<close>: the oldest buffered record if there is
      one; otherwise the worker blocks in its select, ready to receive\<close>
  "workerSelectRecv c =
     (case ch_queue c of
        [] \<Rightarrow> (None, c\<lparr>ch_recvWaiting := True\<rparr>)
      | x # q \<Rightarrow> (Some x, c\<lparr>ch_queue := q, ch_recvWaiting := False\<rparr>))"

datatype chanOp = Submit Step | WorkerSelect

fun chanStep :: "chan \<Rightarrow> chanOp \<Rightarrow> chan" where
  "chanStep c (Submit x) = (case selectSendDefault (Some c) x of (r, Some c') \<Rightarrow> c' | (r, None) \<Rightarrow> c)"
| "chanStep c WorkerSelect = snd (workerSelectRecv c)"

definition chanRun :: "chan \<Rightarrow> chanOp list \<Rightarrow> chan" where
  "chanRun c ops = foldl chanStep c ops"

record 'c MiddlewareConfig =
  UserIDExtractor :: "'c \<Rightarrow> string"
  TokenExtractor :: "'c \<Rightarrow> string"
  TraceIDGenerator :: "string \<Rightarrow> string \<Rightarrow> string"
  Filter :: "'c \<Rightarrow> bool"

text \<open>
  What the handler reads from the gin context once \<open>c.Next()\<close> has returned: the route,
  the method, the status, the measured latency, the client address, the user agent and
  the clock.
\<close>

record served =
  fullPath :: string
  requestMethod :: string
  writerStatus :: "64 word"
  latencyMilliseconds :: "64 word"
  clientIP :: string
  requestUserAgent :: string
  nowUnix :: "64 word"

definition traceHandler ::
  "'c MiddlewareConfig \<Rightarrow> ('c \<Rightarrow> served) \<Rightarrow> 'c \<Rightarrow> chan option \<Rightarrow> enqueued option \<times> chan option" where
  \<comment> \<open>the handler returned by MiddlewareWithConfig; \<open>next\<close> stands for \<open>c.Next()\<close> and what
      the context shows after it. The result says whether a record was submitted and
      what became of it.\<close>
  "traceHandler config next c buffer =
     (if \<not> Filter config c then (None, buffer)
      else
        let userID = UserIDExtractor config c;
            token = TokenExtractor config c in
        if userID = [] \<or> token = [] then (None, buffer)
        else
          let traceID = TraceIDGenerator config userID token;
              r = next c;
              step = \<lparr>TraceID = traceID, UserID = userID, Path = fullPath r,
                      Method = requestMethod r, StatusCode = writerStatus r,
                      LatencyMs = latencyMilliseconds r, IP = clientIP r,
                      UserAgent = requestUserAgent r, CreatedAt = nowUnix r\<rparr>
          in (case selectSendDefault buffer step of (res, b') \<Rightarrow> (Some res, b')))"

text \<open>
  The defaults of \<open>MiddlewareWithConfig\<close> read the URL query of the gin context; for
  them the context is its list of query parameters. An option is a function on the
  configuration (\<open>WithUserIDExtractor\<close> and the others set one field each).
\<close>

type_synonym ginContext = "(string \<times> string) list"

definition Query :: "ginContext \<Rightarrow> string \<Rightarrow> string" where
  \<comment> \<open>gin's \<open>c.Query(key)\<close>: the URL query value, the empty string when absent\<close>
  "Query c k = (case map_of c k of Some v \<Rightarrow> v | None \<Rightarrow> [])"

definition defaultUserIDExtractor :: "ginContext \<Rightarrow> string" where
  "defaultUserIDExtractor c = Query c ''user_id''"

definition defaultTokenExtractor :: "ginContext \<Rightarrow> string" where
  "defaultTokenExtractor c = Query c ''access_token''"

definition defaultFilter :: "ginContext \<Rightarrow> bool" where
  "defaultFilter c = True"

definition WithUserIDExtractor ::
  "('c \<Rightarrow> string) \<Rightarrow> 'c MiddlewareConfig \<Rightarrow> 'c MiddlewareConfig" where
  "WithUserIDExtractor extractor config = config\<lparr>UserIDExtractor := extractor\<rparr>"

definition WithTokenExtractor ::
  "('c \<Rightarrow> string) \<Rightarrow> 'c MiddlewareConfig \<Rightarrow> 'c MiddlewareConfig" where
  "WithTokenExtractor extractor config = config\<lparr>TokenExtractor := extractor\<rparr>"

definition WithTraceIDGenerator ::
  "(string \<Rightarrow> string \<Rightarrow> string) \<Rightarrow> 'c MiddlewareConfig \<Rightarrow> 'c MiddlewareConfig" where
  "WithTraceIDGenerator generator config = config\<lparr>TraceIDGenerator := generator\<rparr>"

definition WithFilter ::
  "('c \<Rightarrow> bool) \<Rightarrow> 'c MiddlewareConfig \<Rightarrow> 'c MiddlewareConfig" where
  "WithFilter filter' config = config\<lparr>Filter := filter'\<rparr>"

definition MiddlewareWithConfig ::
  "(byte list \<Rightarrow> byte list) \<Rightarrow> (ginContext MiddlewareConfig \<Rightarrow> ginContext MiddlewareConfig) list
     \<Rightarrow> (ginContext \<Rightarrow> served) \<Rightarrow> ginContext \<Rightarrow> chan option \<Rightarrow> enqueued option \<times> chan option" where
  \<comment> \<open>the defaults, then the options applied in order, then the handler\<close>
  "MiddlewareWithConfig sum256 options =
     traceHandler (foldl (\<lambda>config option. option config)
       \<lparr>UserIDExtractor = defaultUserIDExtractor, TokenExtractor = defaultTokenExtractor,
        TraceIDGenerator = defaultTraceIDGenerator sum256, Filter = defaultFilter\<rparr> options)"

definition Middleware ::
  "(byte list \<Rightarrow> byte list) \<Rightarrow> (ginContext \<Rightarrow> served) \<Rightarrow> ginContext \<Rightarrow> chan option
     \<Rightarrow> enqueued option \<times> chan option" where
  "Middleware sum256 = MiddlewareWithConfig sum256 []"

section \<open>Config and Start\<close>

record 'db Config =
  DB :: 'db
  FlushInterval :: "64 word"
  BatchSize :: "64 word"
  BufferSize :: "64 word"
  MaxOpenConn :: "64 word"
  MaxIdleConn :: "64 word"
  ConnMaxLifetime :: "64 word"

text \<open>
  \<open>Start\<close> assigns the channel, asks the database for its connection pool
  (\<open>cfg.DB.DB()\<close>, here \<open>dbDB\<close>) and migrates the schema (\<open>autoMigrate\<close>); either may
  return an error, after the channel has been assigned. On success it starts the worker
  goroutine on \<open>cfg.DB\<close>, \<open>cfg.FlushInterval\<close> and \<open>cfg.BatchSize\<close>: the third component
  of the result holds these arguments. The pool settings act on the database only.
\<close>

definition Start ::
  "('db \<Rightarrow> string option) \<Rightarrow> ('db \<Rightarrow> string option) \<Rightarrow> 'db Config \<Rightarrow> chan option
     \<Rightarrow> string option outcome \<times> chan option \<times> ('db \<times> 64 word \<times> 64 word) option" where
  "Start dbDB autoMigrate cfg buffer =
     (case makeChan (BufferSize cfg) of
        Inl p \<Rightarrow> (Panics p, buffer, None)
      | Inr c \<Rightarrow>
          (case dbDB (DB cfg) of
             Some err \<Rightarrow> (Returns (Some err), Some c, None)
           | None \<Rightarrow>
               (case autoMigrate (DB cfg) of
                  Some err \<Rightarrow> (Returns (Some err), Some c, None)
                | None \<Rightarrow>
                    (Returns None, Some c,
                     Some (DB cfg, FlushInterval cfg, BatchSize cfg)))))"

definition configValues :: "'db Config \<Rightarrow> int set" where
  \<comment> \<open>the numbers a configuration gives\<close>
  "configValues cfg = {sint (FlushInterval cfg), sint (BatchSize cfg), sint (BufferSize cfg),
     sint (MaxOpenConn cfg), sint (MaxIdleConn cfg), sint (ConnMaxLifetime cfg)}"

section \<open>Concrete values for runs\<close>

text \<open>A record of a request to the given route.\<close>

definition stepAt :: "string \<Rightarrow> Step" where
  "stepAt p = zeroStep\<lparr>Path := p\<rparr>"

definition servedOk :: "ginContext \<Rightarrow> served" where
  "servedOk c = \<lparr>fullPath = ''/query'', requestMethod = ''GET'', writerStatus = 200,
     latencyMilliseconds = 3, clientIP = ''10.0.0.1'', requestUserAgent = ''curl'',
     nowUnix = 1700000000\<rparr>"

definition okWriter :: "nat createInBatches" where
  "okWriter d c n = (DbOk, Suc d)"

definition failWriter :: "nat createInBatches" where
  "failWriter d c n = (DbError ''database is locked'', Suc d)"

definition failEverySecond :: "nat createInBatches" where
  "failEverySecond d c n = (if odd d then DbError ''database is locked'' else DbOk, Suc d)"

definition failSecondOnly :: "nat createInBatches" where
  "failSecondOnly d c n = (if d = 1 then DbError ''database is locked'' else DbOk, Suc d)"

definition panicSecond :: "nat createInBatches" where
  "panicSecond d c n =
     (if d = 1 then DbPanic ''invalid memory address'' else DbError ''database is locked'', Suc d)"

definition cfgUnbuffered :: "nat Config" where
  "cfgUnbuffered = \<lparr>DB = 0, FlushInterval = 5000000000, BatchSize = 1, BufferSize = 0,
     MaxOpenConn = 10, MaxIdleConn = 5, ConnMaxLifetime = 3600000000000\<rparr>"

definition cfgLarge :: "nat Config" where
  "cfgLarge = \<lparr>DB = 0, FlushInterval = 5000000000, BatchSize = 1200, BufferSize = 2000,
     MaxOpenConn = 10, MaxIdleConn = 5, ConnMaxLifetime = 3600000000000\<rparr>"

section \<open>The default trace ID\<close>

lemma hextable_nth_in:
  assumes "n < 16"
  shows "hextable ! n \<in> set hextable"
proof -
  have "length hextable = 16" by (simp add: hextable_def)
  with assms show ?thesis by simp
qed

lemma unat_high_nibble: "unat (drop_bit 4 (v :: byte)) < 16"
proof -
  have "unat v < 256" using unsigned_less [of v] by simp
  moreover have "unat (drop_bit 4 v) = unat v div 16"
    by (simp add: drop_bit_eq_div unat_div)
  ultimately show ?thesis by simp
qed

lemma unat_low_nibble: "unat ((v :: byte) AND 0x0f) < 16"
proof -
  have "v AND 0x0f \<le> 0x0f" by (rule word_and_le1)
  then have "unat (v AND 0x0f) \<le> unat (0x0f :: byte)" by (simp only: word_le_nat_alt)
  then show ?thesis by simp
qed

lemma hexEncode_length: "length (hexEncodeToString bs) = 2 * length bs"
  by (induction bs) simp_all

lemma hexEncode_digits: "set (hexEncodeToString bs) \<subseteq> set hextable"
proof (induction bs)
  case Nil
  show ?case by simp
next
  case (Cons v vs)
  have "hextable ! unat (drop_bit 4 v) \<in> set hextable"
    by (rule hextable_nth_in [OF unat_high_nibble])
  moreover have "hextable ! unat (v AND 0x0f) \<in> set hextable"
    by (rule hextable_nth_in [OF unat_low_nibble])
  ultimately show ?case using Cons.IH by simp
qed

lemma token_not_in_suffix:
  assumes nu: "\<not> sublist token userID" and nc: "CHR '':'' \<notin> set token"
    and nh: "\<not> set token \<subseteq> set hextable"
  shows "\<not> sublist token (userID @ '':'' @ hexEncodeToString bs)"
proof
  assume "sublist token (userID @ '':'' @ hexEncodeToString bs)"
  then consider "sublist token userID" | "sublist token ('':'' @ hexEncodeToString bs)"
    | xs1 xs2 where "token = xs1 @ xs2" "suffix xs1 userID" "prefix xs2 ('':'' @ hexEncodeToString bs)"
    unfolding sublist_append by blast
  then show False
  proof cases
    case 1
    then show ?thesis using nu by simp
  next
    case 2
    then have "prefix token (CHR '':'' # hexEncodeToString bs) \<or> sublist token (hexEncodeToString bs)"
      by (simp add: sublist_Cons_right)
    then show ?thesis
    proof
      assume p: "prefix token (CHR '':'' # hexEncodeToString bs)"
      show False
      proof (cases token)
        case Nil
        then show ?thesis using nh by simp
      next
        case (Cons t ts)
        then have "t = CHR '':''" using p by simp
        then show ?thesis using nc Cons by simp
      qed
    next
      assume "sublist token (hexEncodeToString bs)"
      then have "set token \<subseteq> set (hexEncodeToString bs)" by (rule set_mono_sublist)
      then show False using hexEncode_digits [of bs] nh by blast
    qed
  next
    case 3
    show ?thesis
    proof (cases xs2)
      case Nil
      then have "suffix token userID" using 3 by simp
      then have "sublist token userID" by (rule suffix_imp_sublist)
      then show ?thesis using nu by simp
    next
      case (Cons x xs)
      then have "x = CHR '':''" using 3(3) by simp
      then show ?thesis using nc 3(1) Cons by simp
    qed
  qed
qed

text \<open>
  Claim C10, as amended. The default trace ID is the user ID, a colon, and the lowercase
  hexadecimal encoding of the SHA-256 digest of the token's bytes: two digits from
  \<open>0123456789abcdef\<close> per digest byte. It is a function of the user ID and the digest
  alone (nothing else, such as a clock, enters). The raw token does not occur in the ID
  when the user ID does not contain it, it has no colon and it has a character that is
  not a lowercase hexadecimal digit; it does occur when the user ID contains it.
\<close>

theorem defaultTraceID_shape:
  "defaultTraceIDGenerator sum256 userID token =
     userID @ '':'' @ hexEncodeToString (sum256 (bytesOf token))
   \<and> length (hexEncodeToString (sum256 (bytesOf token))) = 2 * length (sum256 (bytesOf token))
   \<and> set (hexEncodeToString (sum256 (bytesOf token))) \<subseteq> set ''0123456789abcdef''
   \<and> length (defaultTraceIDGenerator sum256 userID token) =
       length userID + 1 + 2 * length (sum256 (bytesOf token))
   \<and> (\<not> sublist token userID \<and> CHR '':'' \<notin> set token
        \<and> \<not> set token \<subseteq> set ''0123456789abcdef'' \<longrightarrow>
       \<not> tokenAppears token (defaultTraceIDGenerator sum256 userID token))
   \<and> (sublist token userID \<longrightarrow>
       tokenAppears token (defaultTraceIDGenerator sum256 userID token))"
proof -
  have "set (hexEncodeToString (sum256 (bytesOf token))) \<subseteq> set ''0123456789abcdef''"
    using hexEncode_digits [of "sum256 (bytesOf token)"] by (simp only: hextable_def)
  then have shape: "defaultTraceIDGenerator sum256 userID token =
     userID @ '':'' @ hexEncodeToString (sum256 (bytesOf token))
   \<and> length (hexEncodeToString (sum256 (bytesOf token))) = 2 * length (sum256 (bytesOf token))
   \<and> set (hexEncodeToString (sum256 (bytesOf token))) \<subseteq> set ''0123456789abcdef''
   \<and> length (defaultTraceIDGenerator sum256 userID token) =
       length userID + 1 + 2 * length (sum256 (bytesOf token))"
    by (simp add: defaultTraceIDGenerator_def Let_def hexEncode_length)
  have absent: "\<not> sublist token userID \<and> CHR '':'' \<notin> set token
        \<and> \<not> set token \<subseteq> set ''0123456789abcdef'' \<longrightarrow>
       \<not> tokenAppears token (defaultTraceIDGenerator sum256 userID token)"
    using token_not_in_suffix [of token userID "sum256 (bytesOf token)"]
    by (simp add: tokenAppears_def defaultTraceIDGenerator_def Let_def hextable_def)
  have present: "sublist token userID \<longrightarrow>
       tokenAppears token (defaultTraceIDGenerator sum256 userID token)"
    by (simp add: tokenAppears_def defaultTraceIDGenerator_def Let_def sublist_append)
  from shape absent present show ?thesis by blast
qed

theorem defaultTraceID_shape_witness:
  "\<forall>sum256.
     \<not> sublist ''Tok-1'' ''user42'' \<and> CHR '':'' \<notin> set ''Tok-1''
     \<and> \<not> set ''Tok-1'' \<subseteq> set ''0123456789abcdef''
     \<and> \<not> tokenAppears ''Tok-1'' (defaultTraceIDGenerator sum256 ''user42'' ''Tok-1'')
     \<and> sublist ''abc'' ''xabcx''
     \<and> tokenAppears ''abc'' (defaultTraceIDGenerator sum256 ''xabcx'' ''abc'')"
proof
  fix sum256 :: "byte list \<Rightarrow> byte list"
  have a: "\<not> sublist ''Tok-1'' ''user42''" by (simp add: sublist_Cons_right)
  have b: "CHR '':'' \<notin> set ''Tok-1''" by simp
  have c: "\<not> set ''Tok-1'' \<subseteq> set ''0123456789abcdef''" by simp
  have d: "sublist ''abc'' ''xabcx''" by (simp add: sublist_Cons_right)
  from defaultTraceID_shape [of sum256 "''user42''" "''Tok-1''"]
    defaultTraceID_shape [of sum256 "''xabcx''" "''abc''"] a b c d
  show "\<not> sublist ''Tok-1'' ''user42'' \<and> CHR '':'' \<notin> set ''Tok-1''
     \<and> \<not> set ''Tok-1'' \<subseteq> set ''0123456789abcdef''
     \<and> \<not> tokenAppears ''Tok-1'' (defaultTraceIDGenerator sum256 ''user42'' ''Tok-1'')
     \<and> sublist ''abc'' ''xabcx''
     \<and> tokenAppears ''abc'' (defaultTraceIDGenerator sum256 ''xabcx'' ''abc'')"
    by blast
qed

text \<open>
  Claim C10 as stated fails in its last part: when the user ID is (or contains) the
  token, the raw token occurs in the trace ID, whatever the digest is; so does a token
  that is a colon.
\<close>

theorem raw_token_in_trace_id:
  "\<forall>sum256. tokenAppears ''abc'' (defaultTraceIDGenerator sum256 ''abc'' ''abc'')
     \<and> tokenAppears '':'' (defaultTraceIDGenerator sum256 ''u1'' '':'')"
proof
  fix sum256 :: "byte list \<Rightarrow> byte list"
  have "defaultTraceIDGenerator sum256 ''abc'' ''abc'' =
      [] @ ''abc'' @ ('':'' @ hexEncodeToString (sum256 (bytesOf ''abc'')))"
    by (simp add: defaultTraceIDGenerator_def Let_def)
  then have 1: "tokenAppears ''abc'' (defaultTraceIDGenerator sum256 ''abc'' ''abc'')"
    unfolding tokenAppears_def sublist_def by blast
  have "defaultTraceIDGenerator sum256 ''u1'' '':'' =
      ''u1'' @ '':'' @ hexEncodeToString (sum256 (bytesOf '':''))"
    by (simp add: defaultTraceIDGenerator_def Let_def)
  then have 2: "tokenAppears '':'' (defaultTraceIDGenerator sum256 ''u1'' '':'')"
    unfolding tokenAppears_def sublist_def by blast
  from 1 2 show "tokenAppears ''abc'' (defaultTraceIDGenerator sum256 ''abc'' ''abc'')
     \<and> tokenAppears '':'' (defaultTraceIDGenerator sum256 ''u1'' '':'')"
    by simp
qed

section \<open>One attempt: the chunk loop of flushWithRetry\<close>

declare flushChunks.simps [simp del]

declare retryLoop.simps [simp del]

declare chunkSizes.simps [simp del]

lemma chunk_bounds:
  assumes "i < length logs"
  shows "take (min (i + min 500 (length logs)) (length logs) - i) (drop i logs)
           = take 500 (drop i logs)"
proof -
  have "min (i + min 500 (length logs)) (length logs) - i = min 500 (length logs - i)"
    using assms by auto
  then show ?thesis by (simp add: min_def)
qed

lemma flushChunks_done:
  "\<not> i < length logs \<Longrightarrow> flushChunks w logs a i db = (Returns None, db, [])"
  by (simp add: flushChunks.simps [of w logs a i db])

lemma flushChunks_ok:
  assumes "i < length logs"
    and "w db (take 500 (drop i logs)) (min 500 (length logs)) = (DbOk, db')"
  shows "flushChunks w logs a i db =
     (case flushChunks w logs a (i + min 500 (length logs)) db' of
        (r, d, evs) \<Rightarrow>
          (r, d, Create (take 500 (drop i logs)) (min 500 (length logs)) DbOk # evs))"
  using assms by (simp add: flushChunks.simps [of w logs a i db] Let_def chunk_bounds)

lemma flushChunks_error:
  assumes "i < length logs"
    and "w db (take 500 (drop i logs)) (min 500 (length logs)) = (DbError e, db')"
  shows "flushChunks w logs a i db =
     (Returns (Some (BatchFailed i (min (i + min 500 (length logs)) (length logs) - 1) a e)), db',
      [Create (take 500 (drop i logs)) (min 500 (length logs)) (DbError e)])"
  using assms by (simp add: flushChunks.simps [of w logs a i db] Let_def chunk_bounds)

lemma flushChunks_panic:
  assumes "i < length logs"
    and "w db (take 500 (drop i logs)) (min 500 (length logs)) = (DbPanic p, db')"
  shows "flushChunks w logs a i db =
     (Panics (Raised p), db',
      [Create (take 500 (drop i logs)) (min 500 (length logs)) (DbPanic p)])"
  using assms by (simp add: flushChunks.simps [of w logs a i db] Let_def chunk_bounds)

text \<open>
  One induction rule for the loop: it stops at the end of the batch, goes on after a
  successful chunk, and ends at once on an error or a panic.
\<close>

lemma flushChunks_cases [consumes 1, case_names stop ok error panic]:
  assumes run: "flushChunks w logs a i db = (r, d, evs)"
    and stop: "\<And>i db. \<not> i < length logs \<Longrightarrow> P i db (Returns None) db []"
    and ok: "\<And>i db db' r d evs. i < length logs \<Longrightarrow>
        w db (take 500 (drop i logs)) (min 500 (length logs)) = (DbOk, db') \<Longrightarrow>
        flushChunks w logs a (i + min 500 (length logs)) db' = (r, d, evs) \<Longrightarrow>
        P (i + min 500 (length logs)) db' r d evs \<Longrightarrow>
        P i db r d (Create (take 500 (drop i logs)) (min 500 (length logs)) DbOk # evs)"
    and error: "\<And>i db db' e. i < length logs \<Longrightarrow>
        w db (take 500 (drop i logs)) (min 500 (length logs)) = (DbError e, db') \<Longrightarrow>
        P i db (Returns (Some (BatchFailed i (min (i + min 500 (length logs)) (length logs) - 1) a e)))
          db' [Create (take 500 (drop i logs)) (min 500 (length logs)) (DbError e)]"
    and panic: "\<And>i db db' p. i < length logs \<Longrightarrow>
        w db (take 500 (drop i logs)) (min 500 (length logs)) = (DbPanic p, db') \<Longrightarrow>
        P i db (Panics (Raised p)) db'
          [Create (take 500 (drop i logs)) (min 500 (length logs)) (DbPanic p)]"
  shows "P i db r d evs"
  using run
proof (induction "length logs - i" arbitrary: i db r d evs rule: less_induct)
  case less
  show ?case
  proof (cases "i < length logs")
    case False
    with less.prems stop show ?thesis by (simp add: flushChunks_done)
  next
    case True
    obtain res db' where w: "w db (take 500 (drop i logs)) (min 500 (length logs)) = (res, db')"
      by (cases "w db (take 500 (drop i logs)) (min 500 (length logs))")
    show ?thesis
    proof (cases res)
      case DbOk
      obtain r2 d2 evs2 where
        rec: "flushChunks w logs a (i + min 500 (length logs)) db' = (r2, d2, evs2)"
        by (cases "flushChunks w logs a (i + min 500 (length logs)) db'")
      have "length logs - (i + min 500 (length logs)) < length logs - i"
        using True by auto
      then have "P (i + min 500 (length logs)) db' r2 d2 evs2"
        using less.hyps rec by blast
      moreover have "r = r2" "d = d2"
        "evs = Create (take 500 (drop i logs)) (min 500 (length logs)) DbOk # evs2"
        using less.prems w DbOk rec True by (simp_all add: flushChunks_ok)
      ultimately show ?thesis using ok [OF True] w DbOk rec by simp
    next
      case (DbError e)
      then show ?thesis using less.prems w True error [OF True] by (auto simp: flushChunks_error)
    next
      case (DbPanic p)
      then show ?thesis using less.prems w True panic [OF True] by (auto simp: flushChunks_panic)
    qed
  qed
qed

lemma flushChunks_prefix:
  assumes "flushChunks w logs a i db = (r, d, evs)"
  shows "prefix (concat (createdChunks evs)) (drop i logs)"
  using assms
proof (induction rule: flushChunks_cases)
  case (ok i db db' r d evs)
  have "drop i logs = take 500 (drop i logs) @ drop (i + min 500 (length logs)) logs"
  proof -
    have "drop (i + min 500 (length logs)) logs = drop (500 + i) logs"
      using ok(1) by (cases "500 \<le> length logs") (simp_all add: add.commute)
    then show ?thesis using append_take_drop_id [of 500 "drop i logs"] by simp
  qed
  then show ?case using ok by (metis createdChunks.simps(2) concat.simps(2) same_prefix_prefix)
qed (simp_all add: take_is_prefix)

lemma flushChunks_sizes:
  assumes "flushChunks w logs a i db = (r, d, evs)"
  shows "\<forall>c \<in> set (createdChunks evs). c \<noteq> [] \<and> length c \<le> 500"
  using assms by (induction rule: flushChunks_cases) auto

lemma flushChunks_success:
  assumes "flushChunks w logs a i db = (r, d, evs)" and "r = Returns None"
  shows "concat (createdChunks evs) = drop i logs \<and> set (createResults evs) \<subseteq> {DbOk}"
  using assms
proof (induction rule: flushChunks_cases)
  case (ok i db db' r d evs)
  have "drop (i + min 500 (length logs)) logs = drop (500 + i) logs"
    using ok(1) by (cases "500 \<le> length logs") (simp_all add: add.commute)
  then have "drop i logs = take 500 (drop i logs) @ drop (i + min 500 (length logs)) logs"
    using append_take_drop_id [of 500 "drop i logs"] by simp
  then show ?case using ok by simp
qed simp_all

lemma flushChunks_shape:
  assumes "flushChunks w logs a i db = (r, d, evs)"
  shows "\<exists>k. (r = Returns None \<and> createResults evs = replicate k DbOk)
     \<or> (\<exists>j m e. r = Returns (Some (BatchFailed j m a e))
           \<and> createResults evs = replicate k DbOk @ [DbError e])
     \<or> (\<exists>p. r = Panics (Raised p) \<and> createResults evs = replicate k DbOk @ [DbPanic p])"
  using assms
proof (induction rule: flushChunks_cases)
  case (stop i db)
  show ?case by (rule exI [of _ 0]) simp
next
  case (ok i db db' r d evs)
  then obtain k where k: "(r = Returns None \<and> createResults evs = replicate k DbOk)
     \<or> (\<exists>j m e. r = Returns (Some (BatchFailed j m a e))
           \<and> createResults evs = replicate k DbOk @ [DbError e])
     \<or> (\<exists>p. r = Panics (Raised p) \<and> createResults evs = replicate k DbOk @ [DbPanic p])"
    by blast
  show ?case by (rule exI [of _ "Suc k"]) (use k in auto)
next
  case (error i db db' e)
  show ?case by (rule exI [of _ 0]) simp
next
  case (panic i db db' p)
  show ?case by (rule exI [of _ 0]) simp
qed

lemma chunkSizes_0 [simp]: "chunkSizes m 0 = []"
  by (simp add: chunkSizes.simps [of m 0])

lemma flushChunks_lengths:
  assumes "flushChunks w logs a i db = (r, d, evs)" and "r = Returns None"
  shows "map length (createdChunks evs) = chunkSizes 500 (length logs - i)"
  using assms
proof (induction rule: flushChunks_cases)
  case (stop i db)
  then show ?case by simp
next
  case (ok i db db' r d evs)
  have "length logs - (i + min 500 (length logs)) = length logs - i - 500"
    using ok(1) by auto
  then show ?case using ok by (simp add: chunkSizes.simps [of 500 "length logs - i"])
qed simp_all

lemma flushChunks_first:
  assumes "flushChunks w logs a i db = (r, d, evs)" and "i < length logs"
  shows "\<exists>res rest. evs = Create (take 500 (drop i logs)) (min 500 (length logs)) res # rest"
  using assms by (induction rule: flushChunks_cases) auto

lemma chunkSizes_1200: "chunkSizes 500 1200 = [500, 500, 200]"
  by (simp add: chunkSizes.simps [of 500 1200] chunkSizes.simps [of 500 700]
      chunkSizes.simps [of 500 200] chunkSizes.simps [of 500 0])

section \<open>The retry loop and the deferred recover\<close>

lemma createResults_append: "createResults (xs @ ys) = createResults xs @ createResults ys"
  by (induction xs rule: createResults.induct) simp_all

lemma noPanic_append: "noPanic (xs @ ys) = (noPanic xs \<and> noPanic ys)"
  by (simp add: noPanic_def createResults_append)

lemma noPanic_simps:
  "noPanic []"
  "noPanic (Create c n r # evs) = (notPanicResult r \<and> noPanic evs)"
  "noPanic (FlushAttempt a # evs) = noPanic evs"
  "noPanic (Sleep t # evs) = noPanic evs"
  "noPanic (LogPanic p # evs) = noPanic evs"
  "noPanic (LogFailed a e # evs) = noPanic evs"
  "noPanic (LogSuccess k # evs) = noPanic evs"
  by (simp_all add: noPanic_def)

lemma flushChunks_panics:
  assumes "flushChunks w logs a i db = (r, d, evs)"
  shows "case r of
           Panics p \<Rightarrow> \<exists>pre c n q. p = Raised q \<and> evs = pre @ [Create c n (DbPanic q)] \<and> noPanic pre
         | Returns u \<Rightarrow> noPanic evs"
  using assms
proof (induction rule: flushChunks_cases)
  case (stop i db)
  show ?case by (simp add: noPanic_simps)
next
  case (ok i db db' r d evs)
  show ?case
  proof (cases r)
    case (Returns u)
    then show ?thesis using ok by (simp add: noPanic_simps notPanicResult_def)
  next
    case (Panics p)
    then obtain pre c n q where e: "p = Raised q" "evs = pre @ [Create c n (DbPanic q)]" "noPanic pre"
      using ok by auto
    have "Create (take 500 (drop i logs)) (min 500 (length logs)) DbOk # evs =
        (Create (take 500 (drop i logs)) (min 500 (length logs)) DbOk # pre) @ [Create c n (DbPanic q)]"
      by (simp add: e)
    moreover have "noPanic (Create (take 500 (drop i logs)) (min 500 (length logs)) DbOk # pre)"
      using e by (simp add: noPanic_simps notPanicResult_def)
    ultimately have "\<exists>pre' c n q. p = Raised q
        \<and> Create (take 500 (drop i logs)) (min 500 (length logs)) DbOk # evs
            = pre' @ [Create c n (DbPanic q)] \<and> noPanic pre'"
      using e(1) by blast
    then show ?thesis using Panics by simp
  qed
next
  case (error i db db' e)
  show ?case by (simp add: noPanic_simps notPanicResult_def)
next
  case (panic i db db' p)
  have "[Create (take 500 (drop i logs)) (min 500 (length logs)) (DbPanic p)] =
      [] @ [Create (take 500 (drop i logs)) (min 500 (length logs)) (DbPanic p)]" by simp
  then have "\<exists>pre c n q. Raised p = Raised q
      \<and> [Create (take 500 (drop i logs)) (min 500 (length logs)) (DbPanic p)]
          = pre @ [Create c n (DbPanic q)] \<and> noPanic pre"
    using noPanic_simps(1) by blast
  then show ?case by simp
qed

lemma flushWithRetry_panics:
  assumes "flushWithRetry w db logs a = (r, d, evs)"
  shows "case r of
           Panics p \<Rightarrow> \<exists>pre c n q. p = Raised q \<and> evs = pre @ [Create c n (DbPanic q)] \<and> noPanic pre
         | Returns u \<Rightarrow> noPanic evs"
proof -
  obtain evs0 where run: "flushChunks w logs a 0 db = (r, d, evs0)"
    and evs: "evs = FlushAttempt a # evs0"
    using assms by (auto simp: flushWithRetry_def split: prod.splits)
  show ?thesis
  proof (cases r)
    case (Returns u)
    then show ?thesis using flushChunks_panics [OF run] evs by (simp add: noPanic_simps)
  next
    case (Panics p)
    then obtain pre c n q where e: "p = Raised q" "evs0 = pre @ [Create c n (DbPanic q)]" "noPanic pre"
      using flushChunks_panics [OF run] by auto
    have "evs = (FlushAttempt a # pre) @ [Create c n (DbPanic q)]" by (simp add: evs e)
    moreover have "noPanic (FlushAttempt a # pre)" using e by (simp add: noPanic_simps)
    ultimately have "\<exists>pre' c n q. p = Raised q \<and> evs = pre' @ [Create c n (DbPanic q)] \<and> noPanic pre'"
      using e(1) by blast
    then show ?thesis using Panics by simp
  qed
qed

lemma flushWithRetry_bounds:
  assumes "flushWithRetry w db logs a = (r, d, evs)"
  shows "attemptsMade evs = [a] \<and> sleeps evs = []
     \<and> (\<forall>c \<in> set (createdChunks evs). c \<noteq> [] \<and> length c \<le> 500)"
proof -
  obtain evs0 where run: "flushChunks w logs a 0 db = (r, d, evs0)"
    and evs: "evs = FlushAttempt a # evs0"
    using assms by (auto simp: flushWithRetry_def split: prod.splits)
  have "attemptsMade evs0 = [] \<and> sleeps evs0 = []"
    using run by (induction rule: flushChunks_cases) simp_all
  then show ?thesis using flushChunks_sizes [OF run] evs by simp
qed

lemma retryLoop_cases [consumes 1, case_names stop panic last retry success]:
  assumes run: "retryLoop w logs m a db = (r, d, evs)"
    and stop: "\<And>a db. \<not> a \<le> m \<Longrightarrow> P a db (Returns ()) db []"
    and panic: "\<And>a db p db' evs. a \<le> m \<Longrightarrow>
        flushWithRetry w db logs a = (Panics p, db', evs) \<Longrightarrow> P a db (Panics p) db' evs"
    and last: "\<And>db err db' evs.
        flushWithRetry w db logs m = (Returns (Some err), db', evs) \<Longrightarrow>
        P m db (Returns ()) db' (evs @ [LogFailed m err])"
    and retry: "\<And>a db err db' evs r d evs'. a < m \<Longrightarrow>
        flushWithRetry w db logs a = (Returns (Some err), db', evs) \<Longrightarrow>
        retryLoop w logs m (a + 1) db' = (r, d, evs') \<Longrightarrow>
        P (a + 1) db' r d evs' \<Longrightarrow>
        P a db r d (evs @ Sleep (a * second) # evs')"
    and success: "\<And>a db db' evs. a \<le> m \<Longrightarrow>
        flushWithRetry w db logs a = (Returns None, db', evs) \<Longrightarrow>
        P a db (Returns ()) db' (evs @ [LogSuccess (length logs)])"
  shows "P a db r d evs"
  using run
proof (induction "Suc m - a" arbitrary: a db r d evs rule: less_induct)
  case less
  show ?case
  proof (cases "a \<le> m")
    case False
    then have "retryLoop w logs m a db = (Returns (), db, [])"
      by (subst retryLoop.simps) simp
    then show ?thesis using less.prems stop [OF False] by simp
  next
    case True
    obtain r1 db1 evs1 where f: "flushWithRetry w db logs a = (r1, db1, evs1)"
      by (cases "flushWithRetry w db logs a")
    show ?thesis
    proof (cases r1)
      case (Panics p)
      then have "retryLoop w logs m a db = (Panics p, db1, evs1)"
        using True f by (subst retryLoop.simps) simp
      then show ?thesis using less.prems panic [OF True] f Panics by simp
    next
      case (Returns eo)
      show ?thesis
      proof (cases eo)
        case None
        then have "retryLoop w logs m a db = (Returns (), db1, evs1 @ [LogSuccess (length logs)])"
          using True f Returns by (subst retryLoop.simps) simp
        then show ?thesis using less.prems success [OF True] f Returns None by simp
      next
        case (Some err)
        show ?thesis
        proof (cases "a = m")
          case eq: True
          then have "retryLoop w logs m a db = (Returns (), db1, evs1 @ [LogFailed m err])"
            using f Returns Some by (subst retryLoop.simps) simp
          then show ?thesis using less.prems last f Returns Some eq by auto
        next
          case neq: False
          then have lt: "a < m" using True by simp
          obtain r2 d2 evs2 where rec: "retryLoop w logs m (a + 1) db1 = (r2, d2, evs2)"
            by (cases "retryLoop w logs m (a + 1) db1")
          have "retryLoop w logs m a db = (r2, d2, evs1 @ Sleep (a * second) # evs2)"
            using True neq f Returns Some rec by (subst retryLoop.simps) simp
          moreover have "Suc m - (a + 1) < Suc m - a" using lt by simp
          then have "P (a + 1) db1 r2 d2 evs2" using less.hyps rec by blast
          ultimately show ?thesis
            using less.prems retry [OF lt] f Returns Some rec by simp
        qed
      qed
    qed
  qed
qed

lemma attemptsMade_append: "attemptsMade (xs @ ys) = attemptsMade xs @ attemptsMade ys"
  by (induction xs rule: attemptsMade.induct) simp_all

lemma createdChunks_append: "createdChunks (xs @ ys) = createdChunks xs @ createdChunks ys"
  by (induction xs rule: createdChunks.induct) simp_all

lemma retryLoop_panics:
  assumes "retryLoop w logs m a db = (r, d, evs)"
  shows "case r of
           Panics p \<Rightarrow> \<exists>pre c n q. p = Raised q \<and> evs = pre @ [Create c n (DbPanic q)] \<and> noPanic pre
         | Returns u \<Rightarrow> noPanic evs"
  using assms
proof (induction rule: retryLoop_cases)
  case (stop a db)
  show ?case by (simp add: noPanic_simps)
next
  case (panic a db p db' evs)
  then show ?case using flushWithRetry_panics [of w db logs a "Panics p" db' evs] by simp
next
  case (last db err db' evs)
  then show ?case using flushWithRetry_panics [of w db logs m "Returns (Some err)" db' evs]
    by (simp add: noPanic_append noPanic_simps)
next
  case (retry a db err db' evs r d evs')
  have np: "noPanic evs"
    using flushWithRetry_panics [of w db logs a "Returns (Some err)" db' evs] retry(2) by simp
  show ?case
  proof (cases r)
    case (Returns u)
    then show ?thesis using retry np by (simp add: noPanic_append noPanic_simps)
  next
    case (Panics p)
    then obtain pre c n q where e: "p = Raised q" "evs' = pre @ [Create c n (DbPanic q)]" "noPanic pre"
      using retry by auto
    have "evs @ Sleep (a * second) # evs' = (evs @ Sleep (a * second) # pre) @ [Create c n (DbPanic q)]"
      by (simp add: e)
    moreover have "noPanic (evs @ Sleep (a * second) # pre)"
      using np e by (simp add: noPanic_append noPanic_simps)
    ultimately have "\<exists>pre' c n q. p = Raised q
        \<and> evs @ Sleep (a * second) # evs' = pre' @ [Create c n (DbPanic q)] \<and> noPanic pre'"
      using e(1) by blast
    then show ?thesis using Panics by simp
  qed
next
  case (success a db db' evs)
  then show ?case using flushWithRetry_panics [of w db logs a "Returns None" db' evs]
    by (simp add: noPanic_append noPanic_simps)
qed

lemma retryLoop_bounds:
  assumes "retryLoop w logs m a db = (r, d, evs)"
  shows "(\<forall>n \<in> set (attemptsMade evs). a \<le> n \<and> n \<le> m)
     \<and> (\<forall>c \<in> set (createdChunks evs). c \<noteq> [] \<and> length c \<le> 500)"
  using assms
proof (induction rule: retryLoop_cases)
  case (stop a db)
  show ?case by simp
next
  case (panic a db p db' evs)
  then show ?case using flushWithRetry_bounds [of w db logs a "Panics p" db' evs] by simp
next
  case (last db err db' evs)
  then show ?case using flushWithRetry_bounds [of w db logs m "Returns (Some err)" db' evs]
    by (simp add: attemptsMade_append createdChunks_append)
next
  case (retry a db err db' evs r d evs')
  then show ?case using flushWithRetry_bounds [of w db logs a "Returns (Some err)" db' evs]
    by (auto simp: attemptsMade_append createdChunks_append)
next
  case (success a db db' evs)
  then show ?case using flushWithRetry_bounds [of w db logs a "Returns None" db' evs]
    by (simp add: attemptsMade_append createdChunks_append)
qed

lemma deferredRecover_returns:
  "\<exists>db' evs. deferredRecover res = (Returns (), db', evs)"
proof -
  obtain r db evs where res: "res = (r, db, evs)" by (cases res)
  show ?thesis by (cases r) (simp_all add: res deferredRecover_def)
qed

lemma flushGoroutine_returns:
  "\<exists>db' evs. flushGoroutine w db logs = (Returns (), db', evs)"
  unfolding flushGoroutine_def by (rule deferredRecover_returns)

lemma flushGoroutine_bounds:
  assumes "flushGoroutine w db logs = (r, d, evs)"
  shows "(\<forall>n \<in> set (attemptsMade evs). 1 \<le> n \<and> n \<le> 3)
     \<and> (\<forall>c \<in> set (createdChunks evs). c \<noteq> [] \<and> length c \<le> 500)"
proof -
  obtain r0 d0 evs0 where run: "retryLoop w logs 3 1 db = (r0, d0, evs0)"
    by (cases "retryLoop w logs 3 1 db")
  have "attemptsMade evs = attemptsMade evs0 \<and> createdChunks evs = createdChunks evs0"
    using assms run
    by (cases r0) (auto simp: flushGoroutine_def deferredRecover_def attemptsMade_append
        createdChunks_append)
  then show ?thesis using retryLoop_bounds [OF run] by simp
qed

lemma sleeps_append: "sleeps (xs @ ys) = sleeps xs @ sleeps ys"
  by (induction xs rule: sleeps.induct) simp_all

lemma retryLoop_failed_last:
  assumes "flushWithRetry w db logs m = (Returns (Some err), db', evs)"
  shows "retryLoop w logs m m db = (Returns (), db', evs @ [LogFailed m err])"
  using assms by (subst retryLoop.simps) simp

lemma retryLoop_failed_retry:
  assumes "a < m" and "flushWithRetry w db logs a = (Returns (Some err), db', evs)"
    and "retryLoop w logs m (Suc a) db' = (r, d, evs')"
  shows "retryLoop w logs m a db = (r, d, evs @ Sleep (a * second) # evs')"
  using assms by (subst retryLoop.simps) simp

lemma startsOver_append:
  assumes "startsOver logs xs" and "startsOver logs ys"
  shows "startsOver logs (xs @ ys)"
  unfolding startsOver_def
proof (intro allI impI)
  fix pre n post
  assume eq: "xs @ ys = pre @ FlushAttempt n # post"
  then obtain us where "(xs = pre @ us \<and> us @ ys = FlushAttempt n # post)
      \<or> (xs @ us = pre \<and> ys = us @ FlushAttempt n # post)"
    by (auto simp: append_eq_append_conv2)
  then show "\<exists>res rest. post = Create (take 500 logs) (min 500 (length logs)) res # rest"
  proof
    assume c: "xs = pre @ us \<and> us @ ys = FlushAttempt n # post"
    show ?thesis
    proof (cases us)
      case Nil
      then have "ys = [] @ FlushAttempt n # post" using c by simp
      then show ?thesis using assms(2) unfolding startsOver_def by blast
    next
      case (Cons u us')
      then have u: "u = FlushAttempt n" and p: "post = us' @ ys" using c by simp_all
      have "xs = pre @ FlushAttempt n # us'" using c Cons u by simp
      then obtain res rest where "us' = Create (take 500 logs) (min 500 (length logs)) res # rest"
        using assms(1) unfolding startsOver_def by blast
      then show ?thesis using p by simp
    qed
  next
    assume "xs @ us = pre \<and> ys = us @ FlushAttempt n # post"
    then show ?thesis using assms(2) unfolding startsOver_def by blast
  qed
qed

lemma startsOver_no_attempt:
  assumes "attemptsMade evs = []"
  shows "startsOver logs evs"
  unfolding startsOver_def
proof (intro allI impI)
  fix pre n post
  assume "evs = pre @ FlushAttempt n # post"
  then have "attemptsMade evs = attemptsMade pre @ n # attemptsMade post"
    by (simp add: attemptsMade_append)
  then show "\<exists>res rest. post = Create (take 500 logs) (min 500 (length logs)) res # rest"
    using assms by simp
qed

lemma flushChunks_no_attempt:
  assumes "flushChunks w logs a i db = (r, d, evs)"
  shows "attemptsMade evs = []"
  using assms by (induction rule: flushChunks_cases) simp_all

lemma flushWithRetry_startsOver:
  assumes "flushWithRetry w db logs a = (r, d, evs)" and "logs \<noteq> []"
  shows "startsOver logs evs"
proof -
  obtain evs0 where run: "flushChunks w logs a 0 db = (r, d, evs0)"
    and evs: "evs = FlushAttempt a # evs0"
    using assms(1) by (auto simp: flushWithRetry_def split: prod.splits)
  obtain res rest where first: "evs0 = Create (take 500 logs) (min 500 (length logs)) res # rest"
    using flushChunks_first [OF run] assms(2) by auto
  have none: "attemptsMade evs0 = []" by (rule flushChunks_no_attempt [OF run])
  show ?thesis
    unfolding startsOver_def
  proof (intro allI impI)
    fix pre n post
    assume eq: "evs = pre @ FlushAttempt n # post"
    show "\<exists>res rest. post = Create (take 500 logs) (min 500 (length logs)) res # rest"
    proof (cases pre)
      case Nil
      then have "post = evs0" using eq evs by simp
      then show ?thesis using first by blast
    next
      case (Cons p pre')
      then have "evs0 = pre' @ FlushAttempt n # post" using eq evs by simp
      then have "attemptsMade evs0 = attemptsMade pre' @ n # attemptsMade post"
        by (simp add: attemptsMade_append)
      then show ?thesis using none by simp
    qed
  qed
qed

lemma retryLoop_startsOver:
  assumes run: "retryLoop w logs m a db = (r, d, evs)" and ne: "logs \<noteq> []"
  shows "startsOver logs evs"
  using run
proof (induction rule: retryLoop_cases)
  case (stop a db)
  show ?case by (simp add: startsOver_no_attempt)
next
  case (panic a db p db' evs)
  show ?case by (rule flushWithRetry_startsOver [OF panic(2) ne])
next
  case (last db err db' evs)
  have "startsOver logs evs" by (rule flushWithRetry_startsOver [OF last(1) ne])
  moreover have "startsOver logs [LogFailed m err]" by (simp add: startsOver_no_attempt)
  ultimately show ?case by (rule startsOver_append)
next
  case (retry a db err db' evs r d evs')
  have 1: "startsOver logs evs" by (rule flushWithRetry_startsOver [OF retry(2) ne])
  have 2: "startsOver logs [Sleep (a * second)]" by (simp add: startsOver_no_attempt)
  have 3: "startsOver logs evs'" by (rule retry(4))
  have "startsOver logs (evs @ [Sleep (a * second)] @ evs')"
    by (intro startsOver_append 1 2 3)
  then show ?case by simp
next
  case (success a db db' evs)
  have "startsOver logs evs" by (rule flushWithRetry_startsOver [OF success(2) ne])
  moreover have "startsOver logs [LogSuccess (length logs)]" by (simp add: startsOver_no_attempt)
  ultimately show ?case by (rule startsOver_append)
qed

lemma flushGoroutine_startsOver:
  assumes "flushGoroutine w db logs = (r, d, evs)" and "logs \<noteq> []"
  shows "startsOver logs evs"
proof -
  obtain r0 d0 evs0 where run: "retryLoop w logs 3 1 db = (r0, d0, evs0)"
    by (cases "retryLoop w logs 3 1 db")
  have s0: "startsOver logs evs0" by (rule retryLoop_startsOver [OF run assms(2)])
  show ?thesis
  proof (cases r0)
    case (Returns u)
    then have "evs = evs0" using assms(1) run by (simp add: flushGoroutine_def deferredRecover_def)
    then show ?thesis using s0 by simp
  next
    case (Panics p)
    then have "evs = evs0 @ [LogPanic p]"
      using assms(1) run by (simp add: flushGoroutine_def deferredRecover_def)
    moreover have "startsOver logs [LogPanic p]" by (simp add: startsOver_no_attempt)
    ultimately show ?thesis using s0 by (simp add: startsOver_append)
  qed
qed

lemma retryLoop_attempts:
  assumes "retryLoop w logs m a db = (r, d, evs)"
  shows "prefix (attemptsMade evs) [a..<Suc m]"
  using assms
proof (induction rule: retryLoop_cases)
  case (stop a db)
  show ?case by simp
next
  case (panic a db p db' evs)
  have "attemptsMade evs = [a]" using flushWithRetry_bounds [OF panic(2)] by simp
  moreover have "[a..<Suc m] = a # [Suc a..<Suc m]" using panic(1) by (simp add: upt_conv_Cons)
  ultimately show ?case by simp
next
  case (last db err db' evs)
  have "attemptsMade evs = [m]" using flushWithRetry_bounds [OF last(1)] by simp
  then show ?case by (simp add: attemptsMade_append)
next
  case (retry a db err db' evs r d evs')
  have "attemptsMade evs = [a]" using flushWithRetry_bounds [OF retry(2)] by simp
  moreover have "[a..<Suc m] = a # [Suc a..<Suc m]" using retry(1) by (simp add: upt_conv_Cons)
  ultimately show ?case using retry by (simp add: attemptsMade_append)
next
  case (success a db db' evs)
  have "attemptsMade evs = [a]" using flushWithRetry_bounds [OF success(2)] by simp
  moreover have "[a..<Suc m] = a # [Suc a..<Suc m]" using success(1) by (simp add: upt_conv_Cons)
  ultimately show ?case by (simp add: attemptsMade_append)
qed

lemma flushGoroutine_attempts:
  assumes "flushGoroutine w db logs = (r, d, evs)"
  shows "prefix (attemptsMade evs) [1, 2, 3] \<and> length (attemptsMade evs) \<le> 3"
proof -
  obtain r0 d0 evs0 where run: "retryLoop w logs 3 1 db = (r0, d0, evs0)"
    by (cases "retryLoop w logs 3 1 db")
  have "attemptsMade evs = attemptsMade evs0"
    using assms run
    by (cases r0) (auto simp: flushGoroutine_def deferredRecover_def attemptsMade_append)
  moreover have "[1..<Suc 3] = [1, 2, 3]" by (simp add: upt_conv_Cons)
  ultimately have p: "prefix (attemptsMade evs) [1, 2, 3]"
    using retryLoop_attempts [OF run] by simp
  then have "length (attemptsMade evs) \<le> length [1 :: nat, 2, 3]" by (rule prefix_length_le)
  with p show ?thesis by simp
qed

text \<open>
  Claim C4. One call of \<open>flushWithRetry\<close> writes the batch as consecutive chunks: every
  chunk handed to \<open>CreateInBatches\<close> is non-empty and has at most 500 records, the chunks
  in order are a prefix of the batch and, when the call returns no error, the whole
  batch (1200 records go as 500, 500, 200). The calls before the last all succeeded; a
  failing (or panicking) call is the last one, so no later chunk is written and the
  error is returned. A retry starts over: in the events of the retry loop and of the
  whole goroutine, every attempt marker is followed at once by the write of the first
  chunk \<open>logs[0:500]\<close>, whatever chunk the attempt before failed at.
\<close>

theorem flushWithRetry_chunks:
  assumes "flushWithRetry w db logs attempt = (r, db', evs)"
  shows "(\<forall>c \<in> set (createdChunks evs). c \<noteq> [] \<and> length c \<le> 500)
     \<and> prefix (concat (createdChunks evs)) logs
     \<and> (r = Returns None \<longrightarrow> concat (createdChunks evs) = logs
           \<and> map length (createdChunks evs) = chunkSizes 500 (length logs))
     \<and> (length logs = 1200 \<and> r = Returns None \<longrightarrow>
           map length (createdChunks evs) = [500, 500, 200])
     \<and> (\<exists>k. (r = Returns None \<and> createResults evs = replicate k DbOk)
           \<or> (\<exists>j m e. r = Returns (Some (BatchFailed j m attempt e))
                 \<and> createResults evs = replicate k DbOk @ [DbError e])
           \<or> (\<exists>p. r = Panics (Raised p)
                 \<and> createResults evs = replicate k DbOk @ [DbPanic p]))
     \<and> (logs \<noteq> [] \<longrightarrow>
           (\<exists>res rest. evs = FlushAttempt attempt
               # Create (take 500 logs) (min 500 (length logs)) res # rest))
     \<and> (logs \<noteq> [] \<longrightarrow>
           (\<forall>pre n post. snd (snd (retryLoop w logs maxRetries first db0))
                 = pre @ FlushAttempt n # post \<longrightarrow>
              (\<exists>res rest. post = Create (take 500 logs) (min 500 (length logs)) res # rest)))
     \<and> (logs \<noteq> [] \<longrightarrow>
           (\<forall>pre n post. snd (snd (flushGoroutine w db0 logs)) = pre @ FlushAttempt n # post \<longrightarrow>
              (\<exists>res rest. post = Create (take 500 logs) (min 500 (length logs)) res # rest)))"
proof -
  obtain evs0 where run: "flushChunks w logs attempt 0 db = (r, db', evs0)"
    and evs: "evs = FlushAttempt attempt # evs0"
    using assms by (auto simp: flushWithRetry_def split: prod.splits)
  have c: "createdChunks evs = createdChunks evs0" "createResults evs = createResults evs0"
    by (simp_all add: evs)
  have 1: "\<forall>c \<in> set (createdChunks evs). c \<noteq> [] \<and> length c \<le> 500"
    using flushChunks_sizes [OF run] c by simp
  have 2: "prefix (concat (createdChunks evs)) logs"
    using flushChunks_prefix [OF run] c by simp
  have 3: "r = Returns None \<longrightarrow> concat (createdChunks evs) = logs
           \<and> map length (createdChunks evs) = chunkSizes 500 (length logs)"
    using flushChunks_success [OF run] flushChunks_lengths [OF run] c by simp
  have 4: "length logs = 1200 \<and> r = Returns None \<longrightarrow>
           map length (createdChunks evs) = [500, 500, 200]"
    using 3 chunkSizes_1200 by simp
  have 5: "\<exists>k. (r = Returns None \<and> createResults evs = replicate k DbOk)
           \<or> (\<exists>j m e. r = Returns (Some (BatchFailed j m attempt e))
                 \<and> createResults evs = replicate k DbOk @ [DbError e])
           \<or> (\<exists>p. r = Panics (Raised p)
                 \<and> createResults evs = replicate k DbOk @ [DbPanic p])"
    using flushChunks_shape [OF run] c by simp
  have 6: "logs \<noteq> [] \<longrightarrow>
           (\<exists>res rest. evs = FlushAttempt attempt
               # Create (take 500 logs) (min 500 (length logs)) res # rest)"
    using flushChunks_first [OF run] evs by auto
  have 7: "logs \<noteq> [] \<longrightarrow>
           (\<forall>pre n post. snd (snd (retryLoop w logs maxRetries first db0))
                 = pre @ FlushAttempt n # post \<longrightarrow>
              (\<exists>res rest. post = Create (take 500 logs) (min 500 (length logs)) res # rest))"
  proof
    assume ne: "logs \<noteq> []"
    obtain r1 d1 evs1 where g: "retryLoop w logs maxRetries first db0 = (r1, d1, evs1)"
      by (cases "retryLoop w logs maxRetries first db0")
    have "startsOver logs evs1" by (rule retryLoop_startsOver [OF g ne])
    then show "\<forall>pre n post. snd (snd (retryLoop w logs maxRetries first db0))
                 = pre @ FlushAttempt n # post \<longrightarrow>
              (\<exists>res rest. post = Create (take 500 logs) (min 500 (length logs)) res # rest)"
      unfolding startsOver_def g by simp
  qed
  have 8: "logs \<noteq> [] \<longrightarrow>
           (\<forall>pre n post. snd (snd (flushGoroutine w db0 logs)) = pre @ FlushAttempt n # post \<longrightarrow>
              (\<exists>res rest. post = Create (take 500 logs) (min 500 (length logs)) res # rest))"
  proof
    assume ne: "logs \<noteq> []"
    obtain r1 d1 evs1 where g: "flushGoroutine w db0 logs = (r1, d1, evs1)"
      by (cases "flushGoroutine w db0 logs")
    have "startsOver logs evs1" by (rule flushGoroutine_startsOver [OF g ne])
    then show "\<forall>pre n post. snd (snd (flushGoroutine w db0 logs)) = pre @ FlushAttempt n # post \<longrightarrow>
              (\<exists>res rest. post = Create (take 500 logs) (min 500 (length logs)) res # rest)"
      unfolding startsOver_def g by simp
  qed
  from 1 2 3 4 5 6 7 8 show ?thesis by blast
qed

theorem flushWithRetry_chunks_witness:
  "flushWithRetry okWriter 0 (replicate 1200 zeroStep) 1 =
     (Returns None, 3,
      [FlushAttempt 1, Create (replicate 500 zeroStep) 500 DbOk,
       Create (replicate 500 zeroStep) 500 DbOk, Create (replicate 200 zeroStep) 500 DbOk])
   \<and> length (replicate 1200 zeroStep) = 1200
   \<and> replicate 1200 zeroStep \<noteq> []
   \<and> map length (createdChunks
        [FlushAttempt 1, Create (replicate 500 zeroStep) 500 DbOk,
         Create (replicate 500 zeroStep) 500 DbOk, Create (replicate 200 zeroStep) 500 DbOk])
       = [500, 500, 200]
   \<and> flushWithRetry failSecondOnly 0 (replicate 1200 zeroStep) 1 =
     (Returns (Some (BatchFailed 500 999 1 ''database is locked'')), 2,
      [FlushAttempt 1, Create (replicate 500 zeroStep) 500 DbOk,
       Create (replicate 500 zeroStep) 500 (DbError ''database is locked'')])
   \<and> snd (snd (flushGoroutine failSecondOnly 0 (replicate 1200 zeroStep))) =
       [FlushAttempt 1, Create (replicate 500 zeroStep) 500 DbOk,
        Create (replicate 500 zeroStep) 500 (DbError ''database is locked''), Sleep second]
       @ FlushAttempt 2 #
       [Create (replicate 500 zeroStep) 500 DbOk, Create (replicate 500 zeroStep) 500 DbOk,
        Create (replicate 200 zeroStep) 500 DbOk, LogSuccess 1200]"
proof -
  have run: "flushWithRetry okWriter 0 (replicate 1200 zeroStep) 1 =
     (Returns None, 3,
      [FlushAttempt 1, Create (replicate 500 zeroStep) 500 DbOk,
       Create (replicate 500 zeroStep) 500 DbOk, Create (replicate 200 zeroStep) 500 DbOk])"
    by (simp add: flushWithRetry_def flushChunks.simps okWriter_def Let_def)
  have g: "snd (snd (flushGoroutine failSecondOnly 0 (replicate 1200 zeroStep))) =
       [FlushAttempt 1, Create (replicate 500 zeroStep) 500 DbOk,
        Create (replicate 500 zeroStep) 500 (DbError ''database is locked''), Sleep second]
       @ FlushAttempt 2 #
       [Create (replicate 500 zeroStep) 500 DbOk, Create (replicate 500 zeroStep) 500 DbOk,
        Create (replicate 200 zeroStep) 500 DbOk, LogSuccess 1200]"
    by (simp add: flushGoroutine_def deferredRecover_def retryLoop.simps flushWithRetry_def
        flushChunks.simps failSecondOnly_def Let_def)
  have run2: "flushWithRetry failSecondOnly 0 (replicate 1200 zeroStep) 1 =
     (Returns (Some (BatchFailed 500 999 1 ''database is locked'')), 2,
      [FlushAttempt 1, Create (replicate 500 zeroStep) 500 DbOk,
       Create (replicate 500 zeroStep) 500 (DbError ''database is locked'')])"
    by (simp add: flushWithRetry_def flushChunks.simps failSecondOnly_def Let_def)
  show ?thesis
    using flushWithRetry_chunks [OF run, of 3 1 0] flushWithRetry_chunks [OF run2, of 3 1 0]
      run run2 g by simp
qed

text \<open>
  Claim C3. When every attempt fails, that is, when the calls of \<open>flushWithRetry\<close> for
  attempts 1, 2 and 3 each return an error (at whichever chunk), the goroutine calls
  \<open>flushWithRetry\<close> exactly three times: its events are those of attempt 1, a sleep of
  one second, those of attempt 2, a sleep of two seconds (attempt number times
  \<open>time.Second\<close>, so the delays increase), those of attempt 3 and the log line of the
  failure "after 3 attempts". It does not sleep after attempt 3 and returns normally:
  the batch is dropped and nothing is raised.
\<close>

theorem flush_persistent_failure:
  assumes a1: "flushWithRetry w db logs 1 = (Returns (Some err1), db1, evs1)"
    and a2: "flushWithRetry w db1 logs 2 = (Returns (Some err2), db2, evs2)"
    and a3: "flushWithRetry w db2 logs 3 = (Returns (Some err3), db3, evs3)"
  shows "flushGoroutine w db logs =
       (Returns (), db3,
        evs1 @ Sleep (1 * second) # evs2 @ Sleep (2 * second) # evs3 @ [LogFailed 3 err3])
     \<and> attemptsMade (snd (snd (flushGoroutine w db logs))) = [1, 2, 3]
     \<and> sleeps (snd (snd (flushGoroutine w db logs))) = [1 * second, 2 * second]
     \<and> 1 * second < 2 * second
     \<and> attemptsMade evs1 = [1] \<and> attemptsMade evs2 = [2] \<and> attemptsMade evs3 = [3]"
proof -
  have r3: "retryLoop w logs 3 3 db2 = (Returns (), db3, evs3 @ [LogFailed 3 err3])"
    by (rule retryLoop_failed_last [OF a3])
  have "retryLoop w logs 3 (Suc 2) db2 = (Returns (), db3, evs3 @ [LogFailed 3 err3])"
    using r3 by (simp add: numeral_3_eq_3 numeral_2_eq_2)
  from retryLoop_failed_retry [OF _ a2 this]
  have r2: "retryLoop w logs 3 2 db1 =
      (Returns (), db3, evs2 @ Sleep (2 * second) # evs3 @ [LogFailed 3 err3])"
    by simp
  have "retryLoop w logs 3 (Suc 1) db1 =
      (Returns (), db3, evs2 @ Sleep (2 * second) # evs3 @ [LogFailed 3 err3])"
    using r2 by (simp add: numeral_2_eq_2)
  from retryLoop_failed_retry [OF _ a1 this]
  have r1: "retryLoop w logs 3 1 db =
      (Returns (), db3,
       evs1 @ Sleep (1 * second) # evs2 @ Sleep (2 * second) # evs3 @ [LogFailed 3 err3])"
    by simp
  have g: "flushGoroutine w db logs =
       (Returns (), db3,
        evs1 @ Sleep (1 * second) # evs2 @ Sleep (2 * second) # evs3 @ [LogFailed 3 err3])"
    unfolding flushGoroutine_def r1 deferredRecover_def by simp
  note b1 = flushWithRetry_bounds [OF a1] and b2 = flushWithRetry_bounds [OF a2]
    and b3 = flushWithRetry_bounds [OF a3]
  have at: "attemptsMade (snd (snd (flushGoroutine w db logs))) = [1, 2, 3]"
    unfolding g using b1 b2 b3 by (simp add: attemptsMade_append)
  have sl: "sleeps (snd (snd (flushGoroutine w db logs))) = [1 * second, 2 * second]"
    unfolding g using b1 b2 b3 by (simp add: sleeps_append)
  have "1 * second < 2 * second" by (simp add: second_def)
  with g at sl b1 b2 b3 show ?thesis by simp
qed

theorem flush_persistent_failure_witness:
  "flushWithRetry failEverySecond 0 (replicate 501 zeroStep) 1 =
     (Returns (Some (BatchFailed 500 500 1 ''database is locked'')), 2,
      [FlushAttempt 1, Create (replicate 500 zeroStep) 500 DbOk,
       Create [zeroStep] 500 (DbError ''database is locked'')])
   \<and> flushWithRetry failEverySecond 2 (replicate 501 zeroStep) 2 =
     (Returns (Some (BatchFailed 500 500 2 ''database is locked'')), 4,
      [FlushAttempt 2, Create (replicate 500 zeroStep) 500 DbOk,
       Create [zeroStep] 500 (DbError ''database is locked'')])
   \<and> flushWithRetry failEverySecond 4 (replicate 501 zeroStep) 3 =
     (Returns (Some (BatchFailed 500 500 3 ''database is locked'')), 6,
      [FlushAttempt 3, Create (replicate 500 zeroStep) 500 DbOk,
       Create [zeroStep] 500 (DbError ''database is locked'')])
   \<and> flushGoroutine failEverySecond 0 (replicate 501 zeroStep) =
     (Returns (), 6,
      [FlushAttempt 1, Create (replicate 500 zeroStep) 500 DbOk,
       Create [zeroStep] 500 (DbError ''database is locked''),
       Sleep (1 * second),
       FlushAttempt 2, Create (replicate 500 zeroStep) 500 DbOk,
       Create [zeroStep] 500 (DbError ''database is locked''),
       Sleep (2 * second),
       FlushAttempt 3, Create (replicate 500 zeroStep) 500 DbOk,
       Create [zeroStep] 500 (DbError ''database is locked''),
       LogFailed 3 (BatchFailed 500 500 3 ''database is locked'')])"
proof -
  have a1: "flushWithRetry failEverySecond 0 (replicate 501 zeroStep) 1 =
     (Returns (Some (BatchFailed 500 500 1 ''database is locked'')), 2,
      [FlushAttempt 1, Create (replicate 500 zeroStep) 500 DbOk,
       Create [zeroStep] 500 (DbError ''database is locked'')])"
    by (simp add: flushWithRetry_def flushChunks.simps failEverySecond_def Let_def)
  have a2: "flushWithRetry failEverySecond 2 (replicate 501 zeroStep) 2 =
     (Returns (Some (BatchFailed 500 500 2 ''database is locked'')), 4,
      [FlushAttempt 2, Create (replicate 500 zeroStep) 500 DbOk,
       Create [zeroStep] 500 (DbError ''database is locked'')])"
    by (simp add: flushWithRetry_def flushChunks.simps failEverySecond_def Let_def)
  have a3: "flushWithRetry failEverySecond 4 (replicate 501 zeroStep) 3 =
     (Returns (Some (BatchFailed 500 500 3 ''database is locked'')), 6,
      [FlushAttempt 3, Create (replicate 500 zeroStep) 500 DbOk,
       Create [zeroStep] 500 (DbError ''database is locked'')])"
    by (simp add: flushWithRetry_def flushChunks.simps failEverySecond_def Let_def)
  from flush_persistent_failure [OF a1 a2 a3] a1 a2 a3
  show ?thesis by simp
qed

section \<open>The worker's batches\<close>

lemma take_drop_update_last:
  assumes "k + n < length xs"
  shows "take (Suc n) (drop k (xs[k + n := x])) = take n (drop k xs) @ [x]"
proof -
  have "drop k (xs[k + n := x]) = (drop k xs)[n := x]"
    by (simp add: drop_update_swap)
  moreover have "n < length (drop k xs)" using assms by simp
  ultimately show ?thesis by (simp add: take_Suc_conv_app_nth)
qed

lemma makeSlice_ok:
  "makeSlice h c = (h', s) \<Longrightarrow> sliceOk h' s \<and> sliceRead h' s = [] \<and> s_len s = 0 \<and> s_cap s = c"
  by (auto simp: makeSlice_def sliceOk_def sliceRead_def)

lemma sliceRead_length: "sliceOk h s \<Longrightarrow> length (sliceRead h s) = s_len s"
  by (auto simp: sliceOk_def sliceRead_def)

lemma appendSlice_read:
  assumes "sliceOk h s" and "appendSlice h s x = (h', s')"
  shows "sliceRead h' s' = sliceRead h s @ [x] \<and> sliceOk h' s' \<and> s_len s' = Suc (s_len s)"
proof (cases "s_len s < s_cap s")
  case True
  then have h': "h' = h\<lparr>arrays := (arrays h)(s_arr s := (arrays h (s_arr s))[s_off s + s_len s := x])\<rparr>"
    and s': "s' = s\<lparr>s_len := Suc (s_len s)\<rparr>"
    using assms(2) by (simp_all add: appendSlice_def)
  have "s_off s + s_len s < length (arrays h (s_arr s))"
    using True assms(1) by (simp add: sliceOk_def)
  then have "sliceRead h' s' = sliceRead h s @ [x]"
    by (simp add: h' s' sliceRead_def take_drop_update_last)
  moreover have "sliceOk h' s'" using True assms(1) by (simp add: h' s' sliceOk_def)
  ultimately show ?thesis by (simp add: s')
next
  case False
  define c where "c = growCap (s_cap s) (Suc (s_len s))"
  have h': "h' = h\<lparr>arrays := (arrays h)(nextArr h :=
               sliceRead h s @ [x] @ replicate (c - Suc (s_len s)) zeroStep),
             nextArr := Suc (nextArr h)\<rparr>"
    and s': "s' = \<lparr>s_arr = nextArr h, s_off = 0, s_len = Suc (s_len s), s_cap = c\<rparr>"
    using False assms(2) by (simp_all add: appendSlice_def Let_def c_def)
  have len: "length (sliceRead h s) = s_len s" by (rule sliceRead_length [OF assms(1)])
  have c: "Suc (s_len s) \<le> c" by (simp add: c_def growCap_def)
  have "sliceRead h' s' = sliceRead h s @ [x]"
    using len by (simp add: h' s' sliceRead_def)
  moreover have "sliceOk h' s'" using len c by (simp add: h' s' sliceOk_def)
  ultimately show ?thesis by (simp add: s')
qed

lemma appendSlice_in_place:
  assumes "s_len s < s_cap s"
  shows "appendSlice h s x =
     (h\<lparr>arrays := (arrays h)(s_arr s := (arrays h (s_arr s))[s_off s + s_len s := x])\<rparr>,
      s\<lparr>s_len := Suc (s_len s)\<rparr>)"
  using assms by (simp add: appendSlice_def)

text \<open>One iteration of the worker on a received record.\<close>

lemma workerIteration_received:
  assumes ok: "sliceOk (w_heap st) (w_buf st)"
  shows "\<exists>h' b'. appendSlice (w_heap st) (w_buf st) x = (h', b')
     \<and> sliceRead h' b' = sliceRead (w_heap st) (w_buf st) @ [x]
     \<and> sliceOk h' b' \<and> s_len b' = Suc (s_len (w_buf st))
     \<and> workerIteration batchSize st (Received x) =
         (if sint batchSize \<le> int (s_len b')
          then st\<lparr>w_heap := h', w_buf := resliceToZero b', w_spawned := w_spawned st @ [b']\<rparr>
          else st\<lparr>w_heap := h', w_buf := b'\<rparr>)"
proof -
  obtain h' b' where a: "appendSlice (w_heap st) (w_buf st) x = (h', b')"
    by (cases "appendSlice (w_heap st) (w_buf st) x")
  note r = appendSlice_read [OF ok a]
  have "workerIteration batchSize st (Received x) =
         (if sint batchSize \<le> int (s_len b')
          then st\<lparr>w_heap := h', w_buf := resliceToZero b', w_spawned := w_spawned st @ [b']\<rparr>
          else st\<lparr>w_heap := h', w_buf := b'\<rparr>)"
    using a r by (simp add: flush_def)
  with a r show ?thesis by blast
qed

lemma resliceToZero_ok: "sliceOk h s \<Longrightarrow> sliceOk h (resliceToZero s)"
  by (simp add: sliceOk_def resliceToZero_def)

lemma workerLoop_returned: "w_returned st \<Longrightarrow> workerLoop batchSize st es = st"
  by (cases es) simp_all

lemma workerLoop_append:
  "workerLoop batchSize st (es @ fs) = workerLoop batchSize (workerLoop batchSize st es) fs"
  by (induction es arbitrary: st) (simp_all add: workerLoop_returned)

lemma worker_accumulates:
  assumes "sliceOk (w_heap st) (w_buf st)" and "\<not> w_returned st"
    and "int (s_len (w_buf st) + length xs) < sint batchSize"
  shows "let st' = workerLoop batchSize st (map Received xs) in
     w_spawned st' = w_spawned st \<and> \<not> w_returned st'
     \<and> sliceOk (w_heap st') (w_buf st')
     \<and> sliceRead (w_heap st') (w_buf st') = sliceRead (w_heap st) (w_buf st) @ xs"
  using assms
proof (induction xs arbitrary: st)
  case Nil
  then show ?case by simp
next
  case (Cons x xs)
  obtain h' b' where a: "appendSlice (w_heap st) (w_buf st) x = (h', b')"
    and rd: "sliceRead h' b' = sliceRead (w_heap st) (w_buf st) @ [x]"
    and ok: "sliceOk h' b'" and len: "s_len b' = Suc (s_len (w_buf st))"
    and it: "workerIteration batchSize st (Received x) =
         (if sint batchSize \<le> int (s_len b')
          then st\<lparr>w_heap := h', w_buf := resliceToZero b', w_spawned := w_spawned st @ [b']\<rparr>
          else st\<lparr>w_heap := h', w_buf := b'\<rparr>)"
    using workerIteration_received [OF Cons.prems(1), of x batchSize] by blast
  have small: "\<not> sint batchSize \<le> int (s_len b')" using Cons.prems(3) len by simp
  define st1 where "st1 = st\<lparr>w_heap := h', w_buf := b'\<rparr>"
  have it1: "workerIteration batchSize st (Received x) = st1" using it small by (simp add: st1_def)
  have p1: "sliceOk (w_heap st1) (w_buf st1)" using ok by (simp add: st1_def)
  have p2: "\<not> w_returned st1" using Cons.prems(2) by (simp add: st1_def)
  have p3: "int (s_len (w_buf st1) + length xs) < sint batchSize"
    using Cons.prems(3) len by (simp add: st1_def)
  from Cons.IH [OF p1 p2 p3] show ?case
    using Cons.prems(2) it1 rd by (simp add: Let_def st1_def)
qed

lemma worker_batch:
  assumes ok: "sliceOk (w_heap st) (w_buf st)" and nr: "\<not> w_returned st"
    and full: "int (s_len (w_buf st) + length xs) = sint batchSize" and ne: "xs \<noteq> []"
  shows "let st' = workerLoop batchSize st (map Received xs) in
     (\<exists>s. w_spawned st' = w_spawned st @ [s]
        \<and> sliceRead (w_heap st') s = sliceRead (w_heap st) (w_buf st) @ xs)
     \<and> \<not> w_returned st' \<and> s_len (w_buf st') = 0 \<and> sliceOk (w_heap st') (w_buf st')"
proof -
  obtain ys y where xs: "xs = ys @ [y]" using ne by (metis rev_exhaust)
  define st1 where "st1 = workerLoop batchSize st (map Received ys)"
  have "int (s_len (w_buf st) + length ys) < sint batchSize" using full xs by simp
  from worker_accumulates [OF ok nr this]
  have s1: "w_spawned st1 = w_spawned st" "\<not> w_returned st1"
    "sliceOk (w_heap st1) (w_buf st1)"
    "sliceRead (w_heap st1) (w_buf st1) = sliceRead (w_heap st) (w_buf st) @ ys"
    by (simp_all add: Let_def st1_def)
  obtain h' b' where rd: "sliceRead h' b' = sliceRead (w_heap st1) (w_buf st1) @ [y]"
    and ok': "sliceOk h' b'" and len: "s_len b' = Suc (s_len (w_buf st1))"
    and it: "workerIteration batchSize st1 (Received y) =
         (if sint batchSize \<le> int (s_len b')
          then st1\<lparr>w_heap := h', w_buf := resliceToZero b', w_spawned := w_spawned st1 @ [b']\<rparr>
          else st1\<lparr>w_heap := h', w_buf := b'\<rparr>)"
    using workerIteration_received [OF s1(3), of y batchSize] by blast
  have "s_len (w_buf st1) = s_len (w_buf st) + length ys"
    using sliceRead_length [OF s1(3)] sliceRead_length [OF ok] s1(4) by simp
  then have big: "sint batchSize \<le> int (s_len b')" using full xs len by simp
  have run: "workerLoop batchSize st (map Received xs) =
      st1\<lparr>w_heap := h', w_buf := resliceToZero b', w_spawned := w_spawned st1 @ [b']\<rparr>"
    using it big s1(2) by (simp add: xs workerLoop_append st1_def [symmetric])
  show ?thesis
    unfolding run Let_def using s1 rd ok' resliceToZero_ok [OF ok']
    by (simp add: resliceToZero_def xs)
qed

lemma startWorkerInit_ok:
  assumes "startWorkerInit interval batchSize h = Inr st"
  shows "sliceOk (w_heap st) (w_buf st) \<and> \<not> w_returned st \<and> w_spawned st = []
     \<and> s_len (w_buf st) = 0 \<and> sliceRead (w_heap st) (w_buf st) = []"
proof -
  obtain h' b where m: "makeSlice h (nat (sint (batchSize * 2))) = (h', b)"
    by (cases "makeSlice h (nat (sint (batchSize * 2)))")
  then have "st = \<lparr>w_heap = h', w_buf = b, w_spawned = [], w_returned = False\<rparr>"
    using assms by (simp add: startWorkerInit_def Let_def split: if_splits)
  then show ?thesis using makeSlice_ok [OF m] by simp
qed

text \<open>
  Claim C8. On a received record the worker appends it to the current batch; if the
  batch then has at least \<open>batchSize\<close> records, the worker starts one flush goroutine on
  a slice that holds, at that moment, exactly the batch with the new record last, and
  goes on with an empty batch (length 0); otherwise it starts nothing and the batch is
  the old one with the record appended. No tick is involved. When \<open>startWorker\<close>
  receives \<open>batchSize\<close> records in a row and nothing else (3 records for
  \<open>batchSize = 3\<close>), it has started exactly one flush, of those records in order, and
  its batch is empty again.
\<close>

theorem worker_flushes_at_batchSize:
  "(sliceOk (w_heap st) (w_buf st) \<longrightarrow>
      (let st' = workerIteration batchSize st (Received x);
           batch = sliceRead (w_heap st) (w_buf st) @ [x] in
       w_returned st' = w_returned st \<and>
       (if sint batchSize \<le> int (length batch)
        then (\<exists>s. w_spawned st' = w_spawned st @ [s] \<and> sliceRead (w_heap st') s = batch)
             \<and> s_len (w_buf st') = 0
        else w_spawned st' = w_spawned st \<and> sliceRead (w_heap st') (w_buf st') = batch)))
   \<and> (startWorker interval batchSize h (map Received xs) = Inr st1 \<and> xs \<noteq> []
        \<and> int (length xs) = sint batchSize \<longrightarrow>
      (\<exists>s. w_spawned st1 = [s] \<and> sliceRead (w_heap st1) s = xs)
      \<and> s_len (w_buf st1) = 0 \<and> \<not> w_returned st1)"
proof (intro conjI impI)
  assume ok: "sliceOk (w_heap st) (w_buf st)"
  obtain h' b' where rd: "sliceRead h' b' = sliceRead (w_heap st) (w_buf st) @ [x]"
    and ok': "sliceOk h' b'" and len: "s_len b' = Suc (s_len (w_buf st))"
    and it: "workerIteration batchSize st (Received x) =
         (if sint batchSize \<le> int (s_len b')
          then st\<lparr>w_heap := h', w_buf := resliceToZero b', w_spawned := w_spawned st @ [b']\<rparr>
          else st\<lparr>w_heap := h', w_buf := b'\<rparr>)"
    using workerIteration_received [OF ok, of x batchSize] by blast
  have l: "length (sliceRead (w_heap st) (w_buf st) @ [x]) = s_len b'"
    using sliceRead_length [OF ok] len by simp
  show "let st' = workerIteration batchSize st (Received x);
           batch = sliceRead (w_heap st) (w_buf st) @ [x] in
       w_returned st' = w_returned st \<and>
       (if sint batchSize \<le> int (length batch)
        then (\<exists>s. w_spawned st' = w_spawned st @ [s] \<and> sliceRead (w_heap st') s = batch)
             \<and> s_len (w_buf st') = 0
        else w_spawned st' = w_spawned st \<and> sliceRead (w_heap st') (w_buf st') = batch)"
    unfolding Let_def l it using rd by (simp add: resliceToZero_def)
next
  assume a: "startWorker interval batchSize h (map Received xs) = Inr st1 \<and> xs \<noteq> []
        \<and> int (length xs) = sint batchSize"
  then obtain st0 where i0: "startWorkerInit interval batchSize h = Inr st0"
    and st1: "st1 = workerLoop batchSize st0 (map Received xs)"
    by (auto simp: startWorker_def split: sum.splits)
  note i = startWorkerInit_ok [OF i0]
  have ok: "sliceOk (w_heap st0) (w_buf st0)" and nr: "\<not> w_returned st0"
    and full: "int (s_len (w_buf st0) + length xs) = sint batchSize" and ne: "xs \<noteq> []"
    using a i by simp_all
  from worker_batch [OF ok nr full ne]
  show "\<exists>s. w_spawned st1 = [s] \<and> sliceRead (w_heap st1) s = xs"
    and "s_len (w_buf st1) = 0" and "\<not> w_returned st1"
    using i by (simp_all add: Let_def st1)
qed

theorem worker_flushes_at_batchSize_witness:
  "sliceOk \<lparr>arrays = (\<lambda>_. [])(0 := [stepAt ''/a'', stepAt ''/b'', zeroStep, zeroStep, zeroStep, zeroStep]),
        nextArr = 1\<rparr> \<lparr>s_arr = 0, s_off = 0, s_len = 2, s_cap = 6\<rparr>
   \<and> startWorker 5000000000 3 emptyHeap
        (map Received [stepAt ''/a'', stepAt ''/b'', stepAt ''/c'']) =
     Inr \<lparr>w_heap = \<lparr>arrays = (\<lambda>_. [])(0 :=
              [stepAt ''/a'', stepAt ''/b'', stepAt ''/c'', zeroStep, zeroStep, zeroStep]),
            nextArr = 1\<rparr>,
          w_buf = \<lparr>s_arr = 0, s_off = 0, s_len = 0, s_cap = 6\<rparr>,
          w_spawned = [\<lparr>s_arr = 0, s_off = 0, s_len = 3, s_cap = 6\<rparr>], w_returned = False\<rparr>
   \<and> int (length [stepAt ''/a'', stepAt ''/b'', stepAt ''/c'']) = sint (3 :: 64 word)
   \<and> sliceRead \<lparr>arrays = (\<lambda>_. [])(0 :=
              [stepAt ''/a'', stepAt ''/b'', stepAt ''/c'', zeroStep, zeroStep, zeroStep]),
            nextArr = 1\<rparr> \<lparr>s_arr = 0, s_off = 0, s_len = 3, s_cap = 6\<rparr>
       = [stepAt ''/a'', stepAt ''/b'', stepAt ''/c'']"
proof -
  define st where "st = \<lparr>w_heap = \<lparr>arrays = (\<lambda>_. [])(0 :=
      [stepAt ''/a'', stepAt ''/b'', zeroStep, zeroStep, zeroStep, zeroStep]), nextArr = 1\<rparr>,
      w_buf = \<lparr>s_arr = 0, s_off = 0, s_len = 2, s_cap = 6\<rparr>, w_spawned = [], w_returned = False\<rparr>"
  define st1 where "st1 = \<lparr>w_heap = \<lparr>arrays = (\<lambda>_. [])(0 :=
              [stepAt ''/a'', stepAt ''/b'', stepAt ''/c'', zeroStep, zeroStep, zeroStep]),
            nextArr = 1\<rparr>,
          w_buf = \<lparr>s_arr = 0, s_off = 0, s_len = 0, s_cap = 6\<rparr>,
          w_spawned = [\<lparr>s_arr = 0, s_off = 0, s_len = 3, s_cap = 6\<rparr>], w_returned = False\<rparr>"
  have ok: "sliceOk (w_heap st) (w_buf st)" by (simp add: st_def sliceOk_def)
  have run: "startWorker 5000000000 3 emptyHeap
        (map Received [stepAt ''/a'', stepAt ''/b'', stepAt ''/c'']) = Inr st1"
    by (simp add: startWorker_def startWorkerInit_def makeSlice_def emptyHeap_def
        appendSlice_def flush_def resliceToZero_def Let_def eval_nat_numeral st1_def)
  have l: "int (length [stepAt ''/a'', stepAt ''/b'', stepAt ''/c'']) = sint (3 :: 64 word)"
    by simp
  from worker_flushes_at_batchSize [of st 3 "stepAt ''/c''" 5000000000 emptyHeap
      "[stepAt ''/a'', stepAt ''/b'', stepAt ''/c'']" st1] ok run l
  show ?thesis by (simp add: st_def st1_def sliceRead_def)
qed

lemma take_drop_update_first:
  assumes "k < length xs" and "0 < n"
  shows "take n (drop k (xs[k := y])) = y # tl (take n (drop k xs))"
proof -
  obtain z zs where d: "drop k xs = z # zs"
    using assms(1) by (cases "drop k xs") simp_all
  obtain m where n: "n = Suc m" using assms(2) by (cases n) simp_all
  have "drop k (xs[k := y]) = (drop k xs)[0 := y]" by (simp add: drop_update_swap)
  then show ?thesis by (simp add: d n)
qed

text \<open>
  Claim C2 on the code. Whenever a received record fills the batch, the flush goroutine
  gets a slice \<open>s\<close> that holds the batch, and the worker's \<open>buf\<close> keeps the same backing
  array at the same offset with length 0. The next received record is therefore stored
  in the first cell of \<open>s\<close>: read after that, \<open>s\<close> holds the new record in place of the
  batch's first one. The worker's appends do not go into storage disjoint from the
  slice the flush goroutine reads.
\<close>

theorem handed_batch_overwritten_by_next_record:
  assumes ok: "sliceOk (w_heap st) (w_buf st)"
    and full: "sint batchSize \<le> int (s_len (w_buf st)) + 1"
  shows "let st1 = workerIteration batchSize st (Received x);
             st2 = workerIteration batchSize st1 (Received y);
             batch = sliceRead (w_heap st) (w_buf st) @ [x] in
         \<exists>s. w_spawned st1 = w_spawned st @ [s]
            \<and> s_arr (w_buf st1) = s_arr s \<and> s_off (w_buf st1) = s_off s
            \<and> sliceRead (w_heap st1) s = batch
            \<and> sliceRead (w_heap st2) s = y # tl batch"
proof -
  obtain h' b' where rd: "sliceRead h' b' = sliceRead (w_heap st) (w_buf st) @ [x]"
    and ok': "sliceOk h' b'" and len: "s_len b' = Suc (s_len (w_buf st))"
    and it: "workerIteration batchSize st (Received x) =
         (if sint batchSize \<le> int (s_len b')
          then st\<lparr>w_heap := h', w_buf := resliceToZero b', w_spawned := w_spawned st @ [b']\<rparr>
          else st\<lparr>w_heap := h', w_buf := b'\<rparr>)"
    using workerIteration_received [OF ok, of x batchSize] by blast
  define st1 where "st1 = st\<lparr>w_heap := h', w_buf := resliceToZero b', w_spawned := w_spawned st @ [b']\<rparr>"
  have it1: "workerIteration batchSize st (Received x) = st1"
    using it full len by (simp add: st1_def)
  have cap: "0 < s_cap b'" and inside: "s_off b' < length (arrays h' (s_arr b'))"
    using ok' len by (simp_all add: sliceOk_def)
  define h'' where "h'' = h'\<lparr>arrays := (arrays h')(s_arr b' := (arrays h' (s_arr b'))[s_off b' := y])\<rparr>"
  have ap: "appendSlice (w_heap st1) (w_buf st1) y = (h'', (resliceToZero b')\<lparr>s_len := Suc 0\<rparr>)"
    using cap by (simp add: st1_def appendSlice_in_place resliceToZero_def h''_def)
  have heap2: "w_heap (workerIteration batchSize st1 (Received y)) = h''"
    using ap by (simp add: flush_def Let_def)
  have "sliceRead h'' b' = y # tl (sliceRead h' b')"
    using inside len by (simp add: sliceRead_def h''_def take_drop_update_first)
  then show ?thesis
    unfolding Let_def it1 heap2 using rd by (simp add: st1_def resliceToZero_def)
qed

text \<open>
  A run of it: with \<open>batchSize = 2\<close> the worker receives \<open>/a\<close> and \<open>/b\<close> and hands the batch
  to flush goroutine 0, then receives \<open>/c\<close>. When goroutine 0 runs after that, it writes
  \<open>/c\<close>, \<open>/b\<close>: record \<open>/a\<close> is never written.
\<close>

theorem flush_reads_overwritten_batch:
  "sliceOk \<lparr>arrays = (\<lambda>_. [])(0 := [stepAt ''/a'', zeroStep, zeroStep, zeroStep]), nextArr = 1\<rparr>
       \<lparr>s_arr = 0, s_off = 0, s_len = 1, s_cap = 4\<rparr>
   \<and> sint (2 :: 64 word) \<le> int (s_len \<lparr>s_arr = 0, s_off = 0, s_len = 1, s_cap = 4\<rparr>) + 1
   \<and> (case startWorkerInit 5000000000 2 emptyHeap of
        Inl p \<Rightarrow> False
      | Inr st \<Rightarrow>
          (let one = sysRun okWriter 2 (sysInit st 0) [Select (Received (stepAt ''/a''))];
               handed = sysRun okWriter 2 one [Select (Received (stepAt ''/b''))];
               sy = sysRun okWriter 2 handed [Select (Received (stepAt ''/c'')), RunFlush 0] in
           w_heap (sy_worker one) =
             \<lparr>arrays = (\<lambda>_. [])(0 := [stepAt ''/a'', zeroStep, zeroStep, zeroStep]), nextArr = 1\<rparr>
           \<and> w_buf (sy_worker one) = \<lparr>s_arr = 0, s_off = 0, s_len = 1, s_cap = 4\<rparr>
           \<and> map (sliceRead (w_heap (sy_worker handed))) (w_spawned (sy_worker handed))
               = [[stepAt ''/a'', stepAt ''/b'']]
           \<and> createdChunks (sy_events sy) = [[stepAt ''/c'', stepAt ''/b'']]))"
proof -
  define st where "st = \<lparr>w_heap = \<lparr>arrays = (\<lambda>_. [])(0 := [stepAt ''/a'', zeroStep, zeroStep, zeroStep]),
      nextArr = 1\<rparr>, w_buf = \<lparr>s_arr = 0, s_off = 0, s_len = 1, s_cap = 4\<rparr>,
      w_spawned = [], w_returned = False\<rparr>"
  have ok: "sliceOk (w_heap st) (w_buf st)" by (simp add: st_def sliceOk_def)
  have full: "sint (2 :: 64 word) \<le> int (s_len (w_buf st)) + 1" by (simp add: st_def)
  note general = handed_batch_overwritten_by_next_record [OF ok full, of "stepAt ''/b''" "stepAt ''/c''"]
  have run: "(case startWorkerInit 5000000000 2 emptyHeap of
        Inl p \<Rightarrow> False
      | Inr st \<Rightarrow>
          (let one = sysRun okWriter 2 (sysInit st 0) [Select (Received (stepAt ''/a''))];
               handed = sysRun okWriter 2 one [Select (Received (stepAt ''/b''))];
               sy = sysRun okWriter 2 handed [Select (Received (stepAt ''/c'')), RunFlush 0] in
           w_heap (sy_worker one) =
             \<lparr>arrays = (\<lambda>_. [])(0 := [stepAt ''/a'', zeroStep, zeroStep, zeroStep]), nextArr = 1\<rparr>
           \<and> w_buf (sy_worker one) = \<lparr>s_arr = 0, s_off = 0, s_len = 1, s_cap = 4\<rparr>
           \<and> map (sliceRead (w_heap (sy_worker handed))) (w_spawned (sy_worker handed))
               = [[stepAt ''/a'', stepAt ''/b'']]
           \<and> createdChunks (sy_events sy) = [[stepAt ''/c'', stepAt ''/b'']]))"
    by (simp add: startWorkerInit_def makeSlice_def emptyHeap_def appendSlice_def
      flush_def sliceRead_def resliceToZero_def Let_def eval_nat_numeral sysRun_def sysInit_def
      flushGoroutine_def deferredRecover_def retryLoop.simps flushWithRetry_def
      flushChunks.simps okWriter_def)
  from general ok full run show ?thesis by (simp add: st_def)
qed

section \<open>Schedules of the worker and its flush goroutines\<close>

lemma sysStep_RunFlush:
  assumes "sy_crashed sy = None"
  shows "\<exists>db' evs ran. sysStep w batchSize sy (RunFlush k) =
     sy\<lparr>sy_db := db', sy_events := sy_events sy @ evs, sy_ran := ran\<rparr>"
proof (cases "k \<ge> length (w_spawned (sy_worker sy)) \<or> k \<in> set (sy_ran sy)")
  case True
  have "sy = sy\<lparr>sy_db := sy_db sy, sy_events := sy_events sy @ [], sy_ran := sy_ran sy\<rparr>"
    by simp
  moreover have "sysStep w batchSize sy (RunFlush k) = sy" using True by auto
  ultimately show ?thesis by metis
next
  case False
  obtain db' evs where g: "flushGoroutine w (sy_db sy)
      (sliceRead (w_heap (sy_worker sy)) (w_spawned (sy_worker sy) ! k)) = (Returns (), db', evs)"
    using flushGoroutine_returns [of w "sy_db sy"
        "sliceRead (w_heap (sy_worker sy)) (w_spawned (sy_worker sy) ! k)"] by blast
  have "sysStep w batchSize sy (RunFlush k) =
     sy\<lparr>sy_db := db', sy_events := sy_events sy @ evs, sy_ran := sy_ran sy @ [k]\<rparr>"
    using False assms g by simp
  then show ?thesis by blast
qed

lemma sysStep_keeps_running:
  assumes "sy_crashed sy = None"
  shows "sy_crashed (sysStep w batchSize sy a) = None
     \<and> sy_worker (sysStep w batchSize sy a) =
         (case a of Select e \<Rightarrow> workerLoop batchSize (sy_worker sy) [e]
          | RunFlush k \<Rightarrow> sy_worker sy)"
proof (cases a)
  case (Select e)
  then show ?thesis using assms by simp
next
  case (RunFlush k)
  obtain db' evs ran where "sysStep w batchSize sy (RunFlush k) =
     sy\<lparr>sy_db := db', sy_events := sy_events sy @ evs, sy_ran := ran\<rparr>"
    using sysStep_RunFlush [OF assms] by blast
  then show ?thesis using assms RunFlush by simp
qed

lemma sysRun_keeps_running:
  assumes "sy_crashed sy = None"
  shows "sy_crashed (sysRun w batchSize sy acts) = None
     \<and> sy_worker (sysRun w batchSize sy acts) = workerLoop batchSize (sy_worker sy) (selects acts)"
  using assms
proof (induction acts arbitrary: sy)
  case Nil
  then show ?case by (simp add: sysRun_def)
next
  case (Cons a acts)
  note s = sysStep_keeps_running [OF Cons.prems, of w batchSize a]
  have "sy_crashed (sysStep w batchSize sy a) = None" using s by simp
  from Cons.IH [OF this] s
  show ?case
    by (cases a) (simp_all add: sysRun_def workerLoop_returned)
qed

lemma sysRun_after_return:
  assumes "w_returned (sy_worker sy)"
  shows "sy_worker (sysRun w batchSize sy acts) = sy_worker sy"
  using assms
proof (induction acts arbitrary: sy)
  case Nil
  show ?case by (simp add: sysRun_def)
next
  case (Cons a acts)
  have "sy_worker (sysStep w batchSize sy a) = sy_worker sy"
  proof (cases a)
    case (Select e)
    then show ?thesis using Cons.prems by simp
  next
    case (RunFlush k)
    then show ?thesis by (auto split: prod.splits outcome.splits)
  qed
  then show ?case using Cons by (simp add: sysRun_def)
qed

lemma sysRun_selects:
  assumes "sy_crashed sy = None"
  shows "sysRun w batchSize sy (map Select es) =
     sy\<lparr>sy_worker := workerLoop batchSize (sy_worker sy) es\<rparr>"
  using assms
proof (induction es arbitrary: sy)
  case Nil
  show ?case by (simp add: sysRun_def)
next
  case (Cons e es)
  show ?case
  proof (cases "w_returned (sy_worker sy)")
    case True
    then have "sysStep w batchSize sy (Select e) = sy" by simp
    then show ?thesis using Cons True by (simp add: sysRun_def workerLoop_returned)
  next
    case False
    define sy1 where "sy1 = sy\<lparr>sy_worker := workerIteration batchSize (sy_worker sy) e\<rparr>"
    have s: "sysStep w batchSize sy (Select e) = sy1" using False Cons.prems by (simp add: sy1_def)
    have "sy_crashed sy1 = None" using Cons.prems by (simp add: sy1_def)
    from Cons.IH [OF this] show ?thesis using s False by (simp add: sysRun_def sy1_def)
  qed
qed

lemma sysRun_snoc:
  "sysRun w batchSize sy (acts @ [a]) = sysStep w batchSize (sysRun w batchSize sy acts) a"
  by (simp add: sysRun_def)

lemma sysStep_bounds:
  assumes "(\<forall>n \<in> set (attemptsMade (sy_events sy)). 1 \<le> n \<and> n \<le> 3)
     \<and> (\<forall>c \<in> set (createdChunks (sy_events sy)). c \<noteq> [] \<and> length c \<le> 500)"
  shows "(\<forall>n \<in> set (attemptsMade (sy_events (sysStep w batchSize sy a))). 1 \<le> n \<and> n \<le> 3)
     \<and> (\<forall>c \<in> set (createdChunks (sy_events (sysStep w batchSize sy a))). c \<noteq> [] \<and> length c \<le> 500)"
proof (cases a)
  case (Select e)
  then show ?thesis using assms by simp
next
  case (RunFlush k)
  obtain r d evs where g: "flushGoroutine w (sy_db sy)
      (sliceRead (w_heap (sy_worker sy)) (w_spawned (sy_worker sy) ! k)) = (r, d, evs)"
    by (cases "flushGoroutine w (sy_db sy)
      (sliceRead (w_heap (sy_worker sy)) (w_spawned (sy_worker sy) ! k))")
  have "sy_events (sysStep w batchSize sy a) = sy_events sy
      \<or> sy_events (sysStep w batchSize sy a) = sy_events sy @ evs"
    using RunFlush g by (cases r) auto
  then show ?thesis
    using assms flushGoroutine_bounds [OF g]
    by (auto simp: attemptsMade_append createdChunks_append)
qed

lemma sysRun_bounds:
  assumes "(\<forall>n \<in> set (attemptsMade (sy_events sy)). 1 \<le> n \<and> n \<le> 3)
     \<and> (\<forall>c \<in> set (createdChunks (sy_events sy)). c \<noteq> [] \<and> length c \<le> 500)"
  shows "(\<forall>n \<in> set (attemptsMade (sy_events (sysRun w batchSize sy acts))). 1 \<le> n \<and> n \<le> 3)
     \<and> (\<forall>c \<in> set (createdChunks (sy_events (sysRun w batchSize sy acts))).
           c \<noteq> [] \<and> length c \<le> 500)"
  using assms
proof (induction acts arbitrary: sy)
  case Nil
  then show ?case by (simp add: sysRun_def)
next
  case (Cons a acts)
  from Cons.IH [OF sysStep_bounds [OF Cons.prems, of w batchSize a]]
  show ?case by (simp add: sysRun_def)
qed

lemma sysStep_RunFlush_events:
  "\<exists>evs. sy_events (sysStep w batchSize sy (RunFlush k)) = sy_events sy @ evs
     \<and> length (attemptsMade evs) \<le> 3 \<and> prefix (attemptsMade evs) [1, 2, 3]
     \<and> (\<forall>c \<in> set (createdChunks evs). c \<noteq> [] \<and> length c \<le> 500)"
proof -
  obtain r d evs where g: "flushGoroutine w (sy_db sy)
      (sliceRead (w_heap (sy_worker sy)) (w_spawned (sy_worker sy) ! k)) = (r, d, evs)"
    by (cases "flushGoroutine w (sy_db sy)
      (sliceRead (w_heap (sy_worker sy)) (w_spawned (sy_worker sy) ! k))")
  have "sy_events (sysStep w batchSize sy (RunFlush k)) = sy_events sy @ []
      \<or> sy_events (sysStep w batchSize sy (RunFlush k)) = sy_events sy @ evs"
    using g by (cases r) auto
  then show ?thesis
  proof
    assume "sy_events (sysStep w batchSize sy (RunFlush k)) = sy_events sy @ []"
    then show ?thesis by (intro exI [of _ "[]"]) simp
  next
    assume "sy_events (sysStep w batchSize sy (RunFlush k)) = sy_events sy @ evs"
    then show ?thesis
      using flushGoroutine_attempts [OF g] flushGoroutine_bounds [OF g]
      by (intro exI [of _ evs]) simp
  qed
qed

text \<open>
  Claim C1, as amended. When the worker sees the channel closed with a non-empty batch,
  that one iteration starts a flush goroutine on the batch and returns from
  \<open>startWorker\<close>; the iteration itself writes nothing (the events, the database and the
  set of goroutines that have run are unchanged), so the write happens only when the
  goroutine runs, which may be after the return. After the return the worker never
  runs again, so the batch's storage stays as it was handed over.
\<close>

theorem shutdown_hands_off_without_waiting:
  assumes "sy_crashed sy = None" and "\<not> w_returned (sy_worker sy)"
    and "s_len (w_buf (sy_worker sy)) > 0"
  shows "let sy' = sysStep w batchSize sy (Select ChanClosed) in
     w_returned (sy_worker sy')
     \<and> w_spawned (sy_worker sy') = w_spawned (sy_worker sy) @ [w_buf (sy_worker sy)]
     \<and> w_heap (sy_worker sy') = w_heap (sy_worker sy)
     \<and> sy_events sy' = sy_events sy \<and> sy_db sy' = sy_db sy \<and> sy_ran sy' = sy_ran sy
     \<and> (\<forall>acts. sy_worker (sysRun w batchSize sy' acts) = sy_worker sy')"
proof -
  define sy' where "sy' = sysStep w batchSize sy (Select ChanClosed)"
  have 1: "sy' = sy\<lparr>sy_worker := (sy_worker sy)
      \<lparr>w_spawned := w_spawned (sy_worker sy) @ [w_buf (sy_worker sy)], w_returned := True\<rparr>\<rparr>"
    using assms by (simp add: sy'_def flush_def)
  then have "w_returned (sy_worker sy')" by simp
  then have "\<forall>acts. sy_worker (sysRun w batchSize sy' acts) = sy_worker sy'"
    using sysRun_after_return by blast
  then show ?thesis unfolding sy'_def [symmetric] Let_def using 1 by simp
qed

theorem shutdown_hands_off_without_waiting_witness:
  "sy_crashed (sysInit \<lparr>w_heap = \<lparr>arrays = (\<lambda>_. [])(0 := stepAt ''/a'' # replicate 5 zeroStep),
         nextArr = 1\<rparr>, w_buf = \<lparr>s_arr = 0, s_off = 0, s_len = 1, s_cap = 6\<rparr>,
         w_spawned = [], w_returned = False\<rparr> (0 :: nat)) = None
   \<and> \<not> w_returned (sy_worker (sysInit \<lparr>w_heap = \<lparr>arrays = (\<lambda>_. [])(0 := stepAt ''/a'' # replicate 5 zeroStep),
         nextArr = 1\<rparr>, w_buf = \<lparr>s_arr = 0, s_off = 0, s_len = 1, s_cap = 6\<rparr>,
         w_spawned = [], w_returned = False\<rparr> (0 :: nat)))
   \<and> (let sy' = sysStep okWriter 3 (sysInit \<lparr>w_heap = \<lparr>arrays = (\<lambda>_. [])(0 := stepAt ''/a'' # replicate 5 zeroStep),
         nextArr = 1\<rparr>, w_buf = \<lparr>s_arr = 0, s_off = 0, s_len = 1, s_cap = 6\<rparr>,
         w_spawned = [], w_returned = False\<rparr> 0) (Select ChanClosed) in
       w_returned (sy_worker sy')
       \<and> w_spawned (sy_worker sy') = [\<lparr>s_arr = 0, s_off = 0, s_len = 1, s_cap = 6\<rparr>]
       \<and> sy_events sy' = [] \<and> sy_db sy' = 0 \<and> sy_ran sy' = [])"
proof -
  define st where "st = \<lparr>w_heap = \<lparr>arrays = (\<lambda>_. [])(0 := stepAt ''/a'' # replicate 5 zeroStep),
         nextArr = 1\<rparr>, w_buf = \<lparr>s_arr = 0, s_off = 0, s_len = 1, s_cap = 6\<rparr>,
         w_spawned = [], w_returned = False\<rparr>"
  have h: "sy_crashed (sysInit st (0 :: nat)) = None" "\<not> w_returned (sy_worker (sysInit st (0 :: nat)))"
    "s_len (w_buf (sy_worker (sysInit st (0 :: nat)))) > 0"
    by (simp_all add: sysInit_def st_def)
  from shutdown_hands_off_without_waiting [OF h, of okWriter 3] h
  show ?thesis unfolding st_def [symmetric] by (simp add: Let_def sysInit_def st_def)
qed

text \<open>
  Claim C1 as stated fails: with \<open>batchSize = 3\<close>, after one received record and the
  closed channel, \<open>startWorker\<close> has returned, the batch of one record has been handed to
  a goroutine, and that goroutine has not run: no \<open>CreateInBatches\<close> call has been made.
\<close>

theorem shutdown_flush_not_synchronous:
  "(case startWorkerInit 5000000000 3 emptyHeap of
      Inl p \<Rightarrow> False
    | Inr st \<Rightarrow>
        (let sy = sysRun okWriter 3 (sysInit st 0)
                    [Select (Received (stepAt ''/a'')), Select ChanClosed] in
         w_returned (sy_worker sy)
         \<and> map (sliceRead (w_heap (sy_worker sy))) (w_spawned (sy_worker sy)) = [[stepAt ''/a'']]
         \<and> sy_ran sy = [] \<and> sy_events sy = [] \<and> sy_db sy = 0))"
  by (simp add: startWorkerInit_def makeSlice_def emptyHeap_def appendSlice_def
      flush_def sliceRead_def resliceToZero_def Let_def eval_nat_numeral sysRun_def sysInit_def)

text \<open>
  Claim C7. Whatever the database does, a flush goroutine returns normally. Either no
  \<open>CreateInBatches\<close> call panicked, or the events end with the one panicking call
  followed by the log line of the recovered panic value: nothing of the batch is
  attempted after the panic. With no unrecovered panic, no schedule of worker
  iterations and goroutine runs takes the process down, and the worker's state after
  the schedule is that of its loop on the select outcomes alone: it goes on with the
  next batches whatever happened to earlier ones.
\<close>

theorem flush_panic_contained:
  "(\<exists>db' evs. flushGoroutine w db logs = (Returns (), db', evs)
      \<and> (noPanic evs
           \<or> (\<exists>pre c n q. evs = pre @ [Create c n (DbPanic q), LogPanic (Raised q)]
                 \<and> noPanic pre)))
   \<and> (sy_crashed sy = None \<longrightarrow>
        sy_crashed (sysRun w batchSize sy acts) = None
        \<and> sy_worker (sysRun w batchSize sy acts) =
            workerLoop batchSize (sy_worker sy) (selects acts))"
proof (intro conjI impI)
  obtain r d evs where run: "retryLoop w logs 3 1 db = (r, d, evs)"
    by (cases "retryLoop w logs 3 1 db")
  show "\<exists>db' evs. flushGoroutine w db logs = (Returns (), db', evs)
      \<and> (noPanic evs
           \<or> (\<exists>pre c n q. evs = pre @ [Create c n (DbPanic q), LogPanic (Raised q)]
                 \<and> noPanic pre))"
  proof (cases r)
    case (Returns u)
    then have "flushGoroutine w db logs = (Returns (), d, evs)"
      using run by (simp add: flushGoroutine_def deferredRecover_def)
    moreover have "noPanic evs" using retryLoop_panics [OF run] Returns by simp
    ultimately show ?thesis by blast
  next
    case (Panics p)
    then obtain pre c n q where e: "p = Raised q" "evs = pre @ [Create c n (DbPanic q)]" "noPanic pre"
      using retryLoop_panics [OF run] by auto
    have "flushGoroutine w db logs =
        (Returns (), d, pre @ [Create c n (DbPanic q), LogPanic (Raised q)])"
      using run by (simp add: flushGoroutine_def deferredRecover_def Panics e)
    then show ?thesis using e(3) by blast
  qed
next
  assume "sy_crashed sy = None"
  then show "sy_crashed (sysRun w batchSize sy acts) = None"
    by (simp add: sysRun_keeps_running)
next
  assume "sy_crashed sy = None"
  then show "sy_worker (sysRun w batchSize sy acts) =
      workerLoop batchSize (sy_worker sy) (selects acts)"
    by (simp add: sysRun_keeps_running)
qed

theorem flush_panic_contained_witness:
  "sy_crashed (sysInit \<lparr>w_heap = \<lparr>arrays = (\<lambda>_. [])(0 := [zeroStep, zeroStep]), nextArr = 1\<rparr>,
       w_buf = \<lparr>s_arr = 0, s_off = 0, s_len = 0, s_cap = 2\<rparr>, w_spawned = [],
       w_returned = False\<rparr> (0 :: nat)) = None
   \<and> (let sy = sysRun panicSecond 1
          (sysInit \<lparr>w_heap = \<lparr>arrays = (\<lambda>_. [])(0 := [zeroStep, zeroStep]), nextArr = 1\<rparr>,
             w_buf = \<lparr>s_arr = 0, s_off = 0, s_len = 0, s_cap = 2\<rparr>, w_spawned = [],
             w_returned = False\<rparr> 0)
          [Select (Received (stepAt ''/a'')), RunFlush 0, Select (Received (stepAt ''/b''))] in
       sy_crashed sy = None
       \<and> sy_events sy =
           [FlushAttempt 1, Create [stepAt ''/a''] 1 (DbError ''database is locked''),
            Sleep second,
            FlushAttempt 2, Create [stepAt ''/a''] 1 (DbPanic ''invalid memory address''),
            LogPanic (Raised ''invalid memory address'')]
       \<and> length (w_spawned (sy_worker sy)) = 2 \<and> \<not> w_returned (sy_worker sy))"
proof -
  define st where "st = \<lparr>w_heap = \<lparr>arrays = (\<lambda>_. [])(0 := [zeroStep, zeroStep]), nextArr = 1\<rparr>,
       w_buf = \<lparr>s_arr = 0, s_off = 0, s_len = 0, s_cap = 2\<rparr>, w_spawned = [],
       w_returned = False\<rparr>"
  have h: "sy_crashed (sysInit st (0 :: nat)) = None" by (simp add: sysInit_def)
  have ev: "sy_events (sysRun panicSecond 1 (sysInit st 0)
          [Select (Received (stepAt ''/a'')), RunFlush 0, Select (Received (stepAt ''/b''))]) =
           [FlushAttempt 1, Create [stepAt ''/a''] 1 (DbError ''database is locked''),
            Sleep second,
            FlushAttempt 2, Create [stepAt ''/a''] 1 (DbPanic ''invalid memory address''),
            LogPanic (Raised ''invalid memory address'')]"
    by (simp add: st_def appendSlice_def flush_def sliceRead_def resliceToZero_def Let_def
        sysRun_def sysInit_def flushGoroutine_def deferredRecover_def
        retryLoop.simps flushWithRetry_def flushChunks.simps panicSecond_def)
  have wk: "workerLoop 1 st [Received (stepAt ''/a''), Received (stepAt ''/b'')] =
     st\<lparr>w_heap := \<lparr>arrays = (\<lambda>_. [])(0 := [stepAt ''/b'', zeroStep]), nextArr = 1\<rparr>,
        w_spawned := [\<lparr>s_arr = 0, s_off = 0, s_len = 1, s_cap = 2\<rparr>,
                      \<lparr>s_arr = 0, s_off = 0, s_len = 1, s_cap = 2\<rparr>]\<rparr>"
    by (simp add: st_def appendSlice_def flush_def resliceToZero_def)
  from flush_panic_contained [of panicSecond 0 "[stepAt ''/a'']" "sysInit st 0" 1
      "[Select (Received (stepAt ''/a'')), RunFlush 0, Select (Received (stepAt ''/b''))]"] h
  have "sy_crashed (sysRun panicSecond 1 (sysInit st 0)
          [Select (Received (stepAt ''/a'')), RunFlush 0, Select (Received (stepAt ''/b''))]) = None
     \<and> sy_worker (sysRun panicSecond 1 (sysInit st 0)
          [Select (Received (stepAt ''/a'')), RunFlush 0, Select (Received (stepAt ''/b''))]) =
       workerLoop 1 st [Received (stepAt ''/a''), Received (stepAt ''/b'')]"
    by (simp add: sysInit_def)
  then show ?thesis
    unfolding st_def [symmetric] Let_def using h ev wk by (simp add: st_def)
qed

section \<open>The channel and the middleware\<close>

lemma selectSendDefault_cases:
  "selectSendDefault (Some c) x =
     (if ch_cap c = 0
      then (if ch_recvWaiting c then (HandedOver, Some (c\<lparr>ch_recvWaiting := False\<rparr>))
            else (Dropped, Some c))
      else (if length (ch_queue c) < ch_cap c
            then (Buffered, Some (c\<lparr>ch_queue := ch_queue c @ [x]\<rparr>))
            else (Dropped, Some c)))"
  by (simp add: selectSendDefault_def sendReady_def chanSend_def)

lemma chanStep_bound:
  assumes "length (ch_queue c) \<le> ch_cap c"
  shows "length (ch_queue (chanStep c op)) \<le> ch_cap (chanStep c op)
     \<and> ch_cap (chanStep c op) = ch_cap c"
proof (cases op)
  case (Submit x)
  then show ?thesis using assms by (simp add: selectSendDefault_cases)
next
  case WorkerSelect
  then show ?thesis using assms
    by (cases "ch_queue c") (simp_all add: workerSelectRecv_def)
qed

lemma chanRun_bound:
  assumes "length (ch_queue c) \<le> ch_cap c"
  shows "length (ch_queue (chanRun c ops)) \<le> ch_cap c \<and> ch_cap (chanRun c ops) = ch_cap c"
  using assms
proof (induction ops arbitrary: c)
  case Nil
  then show ?case by (simp add: chanRun_def)
next
  case (Cons op ops)
  note s = chanStep_bound [OF Cons.prems, of op]
  from Cons.IH [of "chanStep c op"] s show ?case by (simp add: chanRun_def)
qed

lemma traceHandler_cases:
  "traceHandler config next c b =
     (if Filter config c \<and> UserIDExtractor config c \<noteq> [] \<and> TokenExtractor config c \<noteq> []
      then (case selectSendDefault b
              \<lparr>TraceID = TraceIDGenerator config (UserIDExtractor config c) (TokenExtractor config c),
               UserID = UserIDExtractor config c, Path = fullPath (next c),
               Method = requestMethod (next c), StatusCode = writerStatus (next c),
               LatencyMs = latencyMilliseconds (next c), IP = clientIP (next c),
               UserAgent = requestUserAgent (next c), CreatedAt = nowUnix (next c)\<rparr> of
              (res, b') \<Rightarrow> (Some res, b'))
      else (None, b))"
  by (simp add: traceHandler_def Let_def)

text \<open>
  Claim C5, as amended. The middleware's enqueue is a select with a default branch, so
  the handler always returns: it either submits no record and leaves the buffer as it
  is, or its outcome is that of the select on one record. On a channel of capacity at
  least 1 the record is buffered (appended to the queue) when the queue holds fewer
  records than the capacity, and dropped, with the channel unchanged and nothing
  reported, when the queue is full. On a channel of capacity 0 the record is handed
  straight to the worker if the worker is blocked in its select waiting to receive, and
  dropped otherwise. From \<open>make(chan Step, BufferSize)\<close> on, whatever is submitted and
  received, the queue never holds more than \<open>BufferSize\<close> records.
\<close>

theorem enqueue_never_blocks_bounded:
  "(length (ch_queue c) < ch_cap c \<longrightarrow>
      selectSendDefault (Some c) x = (Buffered, Some (c\<lparr>ch_queue := ch_queue c @ [x]\<rparr>)))
   \<and> (ch_cap c \<le> length (ch_queue c) \<and> 0 < ch_cap c \<longrightarrow>
      selectSendDefault (Some c) x = (Dropped, Some c))
   \<and> (ch_cap c = 0 \<longrightarrow>
      selectSendDefault (Some c) x =
        (if ch_recvWaiting c then (HandedOver, Some (c\<lparr>ch_recvWaiting := False\<rparr>))
         else (Dropped, Some c)))
   \<and> (traceHandler config next ctx (Some c) = (r, b') \<longrightarrow>
        (r = None \<and> b' = Some c)
        \<or> (\<exists>step res. r = Some res \<and> selectSendDefault (Some c) step = (res, b')))
   \<and> (makeChan bufferSize = Inr c0 \<longrightarrow>
        ch_cap (chanRun c0 ops) = nat (sint bufferSize)
        \<and> length (ch_queue (chanRun c0 ops)) \<le> nat (sint bufferSize))"
proof (intro conjI impI)
  assume "traceHandler config next ctx (Some c) = (r, b')"
  then show "(r = None \<and> b' = Some c)
        \<or> (\<exists>step res. r = Some res \<and> selectSendDefault (Some c) step = (res, b'))"
    by (auto simp: traceHandler_cases split: if_splits prod.splits)
next
  assume m: "makeChan bufferSize = Inr c0"
  then have c0: "ch_cap c0 = nat (sint bufferSize)" "ch_queue c0 = []"
    by (auto simp: makeChan_def split: if_splits)
  then have "length (ch_queue c0) \<le> ch_cap c0" by simp
  from chanRun_bound [OF this, of ops] c0
  show "ch_cap (chanRun c0 ops) = nat (sint bufferSize)"
    and "length (ch_queue (chanRun c0 ops)) \<le> nat (sint bufferSize)"
    by simp_all
qed (simp_all add: selectSendDefault_cases)

theorem enqueue_never_blocks_bounded_witness:
  "length (ch_queue \<lparr>ch_cap = 2, ch_queue = [stepAt ''/a''], ch_recvWaiting = False\<rparr>)
     < ch_cap \<lparr>ch_cap = 2, ch_queue = [stepAt ''/a''], ch_recvWaiting = False\<rparr>
   \<and> selectSendDefault (Some \<lparr>ch_cap = 2, ch_queue = [stepAt ''/a''], ch_recvWaiting = False\<rparr>)
        (stepAt ''/b'')
      = (Buffered, Some \<lparr>ch_cap = 2, ch_queue = [stepAt ''/a'', stepAt ''/b''], ch_recvWaiting = False\<rparr>)
   \<and> (\<forall>sum256. fst (MiddlewareWithConfig sum256 [] servedOk
        [(''user_id'', ''123''), (''access_token'', ''abc123'')]
        (Some \<lparr>ch_cap = 2, ch_queue = [stepAt ''/a''], ch_recvWaiting = False\<rparr>)) = Some Buffered)
   \<and> makeChan 2 = Inr \<lparr>ch_cap = 2, ch_queue = [], ch_recvWaiting = False\<rparr>
   \<and> length (ch_queue (chanRun \<lparr>ch_cap = 2, ch_queue = [], ch_recvWaiting = False\<rparr>
        [Submit (stepAt ''/a''), Submit (stepAt ''/b''), Submit (stepAt ''/c'')])) \<le> nat (sint (2 :: 64 word))
   \<and> ch_queue (chanRun \<lparr>ch_cap = 2, ch_queue = [], ch_recvWaiting = False\<rparr>
        [Submit (stepAt ''/a''), Submit (stepAt ''/b''), Submit (stepAt ''/c'')])
      = [stepAt ''/a'', stepAt ''/b'']"
proof -
  define c where "c = \<lparr>ch_cap = 2, ch_queue = [stepAt ''/a''], ch_recvWaiting = False\<rparr>"
  define config where "config = \<lparr>UserIDExtractor = defaultUserIDExtractor,
      TokenExtractor = defaultTokenExtractor,
      TraceIDGenerator = (\<lambda>userID token. ''trace-'' @ userID), Filter = defaultFilter\<rparr>"
  define ctx :: ginContext where "ctx = [(''user_id'', ''123''), (''access_token'', ''abc123'')]"
  have m: "makeChan 2 = Inr \<lparr>ch_cap = 2, ch_queue = [], ch_recvWaiting = False\<rparr>"
    by (simp add: makeChan_def)
  have q: "ch_queue (chanRun \<lparr>ch_cap = 2, ch_queue = [], ch_recvWaiting = False\<rparr>
        [Submit (stepAt ''/a''), Submit (stepAt ''/b''), Submit (stepAt ''/c'')])
      = [stepAt ''/a'', stepAt ''/b'']"
    by (simp add: chanRun_def selectSendDefault_cases)
  have l: "length (ch_queue c) < ch_cap c" by (simp add: c_def)
  have t: "fst (traceHandler config servedOk ctx (Some c)) = Some Buffered"
    by (simp add: traceHandler_cases selectSendDefault_cases c_def config_def ctx_def
        defaultUserIDExtractor_def defaultTokenExtractor_def defaultFilter_def Query_def)
  have p: "traceHandler config servedOk ctx (Some c) =
      (fst (traceHandler config servedOk ctx (Some c)), snd (traceHandler config servedOk ctx (Some c)))"
    by simp
  from enqueue_never_blocks_bounded [where c = c and x = "stepAt ''/b''" and config = config
      and ?next = servedOk and ctx = ctx
      and r = "fst (traceHandler config servedOk ctx (Some c))"
      and b' = "snd (traceHandler config servedOk ctx (Some c))"
      and bufferSize = 2 and ?c0.0 = "\<lparr>ch_cap = 2, ch_queue = [], ch_recvWaiting = False\<rparr>"
      and ops = "[Submit (stepAt ''/a''), Submit (stepAt ''/b''), Submit (stepAt ''/c'')]"]
    m q l t p
  show ?thesis
    by (simp add: c_def MiddlewareWithConfig_def config_def ctx_def traceHandler_cases
        selectSendDefault_cases defaultUserIDExtractor_def defaultTokenExtractor_def
        defaultFilter_def Query_def)
qed

text \<open>
  Claim C5 as stated fails for \<open>BufferSize = 0\<close>: after \<open>Start\<close> the channel is unbuffered;
  once the worker is blocked in its select, the queue is at capacity (0 of 0), yet a
  request's record is not dropped: the send proceeds and the worker receives it.
\<close>

theorem enqueue_unbuffered_hands_over:
  "\<forall>sum256.
     (case Start (\<lambda>db. None) (\<lambda>db. None) cfgUnbuffered None of
        (started, None, launched) \<Rightarrow> False
      | (started, Some c0, launched) \<Rightarrow>
          started = Returns None \<and>
          (case workerSelectRecv c0 of
             (got, c1) \<Rightarrow>
               got = None \<and> length (ch_queue c1) = ch_cap c1
               \<and> MiddlewareWithConfig sum256 [] servedOk
                    [(''user_id'', ''123''), (''access_token'', ''abc123'')] (Some c1)
                    = (Some HandedOver, Some c0)))"
  by (simp add: Start_def cfgUnbuffered_def makeChan_def workerSelectRecv_def
      MiddlewareWithConfig_def traceHandler_cases selectSendDefault_cases
      defaultUserIDExtractor_def defaultTokenExtractor_def defaultFilter_def Query_def)

text \<open>
  Claim C9. Before \<open>Start\<close> the package variable \<open>buffer\<close> is nil. A send on a nil channel
  is never ready, so the select takes its default branch: the record is dropped, the
  buffer is still nil, and the handler returns whether or not the request was traced.
\<close>

theorem enqueue_before_Start_drops:
  "\<not> sendReady None
   \<and> selectSendDefault None x = (Dropped, None)
   \<and> traceHandler config next c None =
       (if Filter config c \<and> UserIDExtractor config c \<noteq> [] \<and> TokenExtractor config c \<noteq> []
        then Some Dropped else None, None)
   \<and> snd (MiddlewareWithConfig sum256 options next' c' None) = None
   \<and> fst (MiddlewareWithConfig sum256 options next' c' None) \<noteq> Some Buffered
   \<and> fst (MiddlewareWithConfig sum256 options next' c' None) \<noteq> Some HandedOver
   \<and> Middleware sum256 next' c' None =
       (if Query c' ''user_id'' \<noteq> [] \<and> Query c' ''access_token'' \<noteq> []
        then Some Dropped else None, None)"
  by (simp add: sendReady_def selectSendDefault_def traceHandler_cases MiddlewareWithConfig_def
      Middleware_def defaultUserIDExtractor_def defaultTokenExtractor_def defaultFilter_def)

section \<open>The configuration\<close>

text \<open>
  Claim C6, as amended. \<open>Config\<close> has no field for the number of retry attempts or for
  the chunk size: \<open>Start\<close> passes the worker \<open>cfg.DB\<close>, \<open>cfg.FlushInterval\<close> and
  \<open>cfg.BatchSize\<close> only. For every configuration that starts the pipeline and every
  schedule of the worker and its flush goroutines, the run of any flush goroutine adds
  events with at most 3 attempts, numbered 1, 2, 3 in order, and with chunks of 1 to 500
  records; the same holds of every flush goroutine on any batch and database state.
  The numbers 3 and 500 are constants of the code.
\<close>

theorem retries_and_chunk_size_fixed_in_code:
  assumes "Start dbDB autoMigrate cfg buffer = (Returns None, b', Some (db, interval, batchSize))"
    and "startWorkerInit interval batchSize h = Inr st"
  shows "db = DB cfg \<and> interval = FlushInterval cfg \<and> batchSize = BatchSize cfg
     \<and> (let sy = sysRun w batchSize (sysInit st db) acts in
         (\<forall>n \<in> set (attemptsMade (sy_events sy)). 1 \<le> n \<and> n \<le> 3)
         \<and> (\<forall>c \<in> set (createdChunks (sy_events sy)). c \<noteq> [] \<and> length c \<le> 500))
     \<and> (let sy = sysRun w batchSize (sysInit st db) acts in
         \<exists>evs. sy_events (sysStep w batchSize sy (RunFlush k)) = sy_events sy @ evs
           \<and> length (attemptsMade evs) \<le> 3 \<and> prefix (attemptsMade evs) [1, 2, 3]
           \<and> (\<forall>c \<in> set (createdChunks evs). c \<noteq> [] \<and> length c \<le> 500))
     \<and> length (attemptsMade (snd (snd (flushGoroutine w db0 logs)))) \<le> 3
     \<and> prefix (attemptsMade (snd (snd (flushGoroutine w db0 logs)))) [1, 2, 3]
     \<and> (\<forall>c \<in> set (createdChunks (snd (snd (flushGoroutine w db0 logs)))).
           c \<noteq> [] \<and> length c \<le> 500)"
proof -
  have 1: "db = DB cfg \<and> interval = FlushInterval cfg \<and> batchSize = BatchSize cfg"
    using assms(1) by (auto simp: Start_def split: sum.splits option.splits)
  have "(\<forall>n \<in> set (attemptsMade (sy_events (sysInit st db))). 1 \<le> n \<and> n \<le> 3)
     \<and> (\<forall>c \<in> set (createdChunks (sy_events (sysInit st db))). c \<noteq> [] \<and> length c \<le> 500)"
    by (simp add: sysInit_def)
  note 2 = sysRun_bounds [OF this, of w batchSize acts]
  note 3 = sysStep_RunFlush_events [of w batchSize "sysRun w batchSize (sysInit st db) acts" k]
  obtain r d evs where g: "flushGoroutine w db0 logs = (r, d, evs)"
    by (cases "flushGoroutine w db0 logs")
  note 4 = flushGoroutine_attempts [OF g] flushGoroutine_bounds [OF g]
  show ?thesis
    unfolding Let_def g using 1 2 3 4 by simp
qed

theorem retries_and_chunk_size_fixed_in_code_witness:
  "Start (\<lambda>db. None) (\<lambda>db. None) cfgUnbuffered None =
     (Returns None, Some \<lparr>ch_cap = 0, ch_queue = [], ch_recvWaiting = False\<rparr>,
      Some (0, 5000000000, 1))
   \<and> startWorkerInit 5000000000 1 emptyHeap =
       Inr \<lparr>w_heap = \<lparr>arrays = (\<lambda>_. [])(0 := [zeroStep, zeroStep]), nextArr = 1\<rparr>,
            w_buf = \<lparr>s_arr = 0, s_off = 0, s_len = 0, s_cap = 2\<rparr>, w_spawned = [],
            w_returned = False\<rparr>
   \<and> sy_events (sysRun failWriter 1
        (sysInit \<lparr>w_heap = \<lparr>arrays = (\<lambda>_. [])(0 := [zeroStep, zeroStep]), nextArr = 1\<rparr>,
            w_buf = \<lparr>s_arr = 0, s_off = 0, s_len = 0, s_cap = 2\<rparr>, w_spawned = [],
            w_returned = False\<rparr> 0)
        [Select (Received (stepAt ''/a''))]) = []
   \<and> attemptsMade (sy_events (sysRun failWriter 1
        (sysInit \<lparr>w_heap = \<lparr>arrays = (\<lambda>_. [])(0 := [zeroStep, zeroStep]), nextArr = 1\<rparr>,
            w_buf = \<lparr>s_arr = 0, s_off = 0, s_len = 0, s_cap = 2\<rparr>, w_spawned = [],
            w_returned = False\<rparr> 0)
        [Select (Received (stepAt ''/a'')), RunFlush 0])) = [1, 2, 3]
   \<and> map length (createdChunks (sy_events (sysRun failWriter 1
        (sysInit \<lparr>w_heap = \<lparr>arrays = (\<lambda>_. [])(0 := [zeroStep, zeroStep]), nextArr = 1\<rparr>,
            w_buf = \<lparr>s_arr = 0, s_off = 0, s_len = 0, s_cap = 2\<rparr>, w_spawned = [],
            w_returned = False\<rparr> 0)
        [Select (Received (stepAt ''/a'')), RunFlush 0]))) = [1, 1, 1]"
proof -
  define st where "st = \<lparr>w_heap = \<lparr>arrays = (\<lambda>_. [])(0 := [zeroStep, zeroStep]), nextArr = 1\<rparr>,
            w_buf = \<lparr>s_arr = 0, s_off = 0, s_len = 0, s_cap = 2\<rparr>, w_spawned = [],
            w_returned = False\<rparr>"
  have s: "Start (\<lambda>db. None) (\<lambda>db. None) cfgUnbuffered None =
     (Returns None, Some \<lparr>ch_cap = 0, ch_queue = [], ch_recvWaiting = False\<rparr>,
      Some (0, 5000000000, 1))"
    by (simp add: Start_def cfgUnbuffered_def makeChan_def)
  have i: "startWorkerInit 5000000000 1 emptyHeap = Inr st"
    by (simp add: startWorkerInit_def makeSlice_def emptyHeap_def st_def eval_nat_numeral)
  have e0: "sy_events (sysRun failWriter 1 (sysInit st 0) [Select (Received (stepAt ''/a''))]) = []"
    by (simp add: st_def appendSlice_def flush_def resliceToZero_def Let_def sysRun_def sysInit_def)
  have e: "sy_events (sysRun failWriter 1 (sysInit st 0)
        [Select (Received (stepAt ''/a'')), RunFlush 0]) =
      [FlushAttempt 1, Create [stepAt ''/a''] 1 (DbError ''database is locked''), Sleep second,
       FlushAttempt 2, Create [stepAt ''/a''] 1 (DbError ''database is locked''),
       Sleep (2 * second),
       FlushAttempt 3, Create [stepAt ''/a''] 1 (DbError ''database is locked''),
       LogFailed 3 (BatchFailed 0 0 3 ''database is locked'')]"
    by (simp add: st_def appendSlice_def flush_def sliceRead_def resliceToZero_def Let_def
        sysRun_def sysInit_def flushGoroutine_def deferredRecover_def
        retryLoop.simps flushWithRetry_def flushChunks.simps failWriter_def)
  from retries_and_chunk_size_fixed_in_code [OF s i, of failWriter
      "[Select (Received (stepAt ''/a''))]" 0 0 "[stepAt ''/a'']"] s i e e0
  show ?thesis unfolding st_def [symmetric] by simp
qed

text \<open>
  Claim C6 as stated fails: under a configuration whose numbers are 5000000000, 1200,
  2000, 10, 5 and 3600000000000, a batch of 1200 records is attempted 3 times when the
  database keeps failing and is written as chunks of 500, 500 and 200 when it works;
  neither 3 nor 500 is a value of the configuration.
\<close>

theorem retries_and_chunk_size_not_configured:
  "(case Start (\<lambda>db. None) (\<lambda>db. None) cfgLarge None of
      (started, b, None) \<Rightarrow> False
    | (started, b, Some (db, interval, batchSize)) \<Rightarrow>
        (case startWorkerInit interval batchSize emptyHeap of
           Inl p \<Rightarrow> False
         | Inr st \<Rightarrow>
             (let received = map Select (map Received (replicate 1200 zeroStep));
                  failing = sysRun failWriter batchSize (sysInit st db) (received @ [RunFlush 0]);
                  writing = sysRun okWriter batchSize (sysInit st db) (received @ [RunFlush 0])
              in attemptsMade (sy_events failing) = [1, 2, 3]
                 \<and> map length (createdChunks (sy_events writing)) = [500, 500, 200]
                 \<and> 3 \<notin> configValues cfgLarge \<and> 500 \<notin> configValues cfgLarge)))"
proof -
  define st where "st = \<lparr>w_heap = \<lparr>arrays = (\<lambda>_. [])(0 := replicate 2400 zeroStep), nextArr = 1\<rparr>,
            w_buf = \<lparr>s_arr = 0, s_off = 0, s_len = 0, s_cap = 2400\<rparr>, w_spawned = [],
            w_returned = False\<rparr>"
  define xs where "xs = replicate 1200 zeroStep"
  have s: "Start (\<lambda>db. None) (\<lambda>db. None) cfgLarge None =
     (Returns None, Some \<lparr>ch_cap = 2000, ch_queue = [], ch_recvWaiting = False\<rparr>,
      Some (0, 5000000000, 1200))"
    by (simp add: Start_def cfgLarge_def makeChan_def)
  have i: "startWorkerInit 5000000000 1200 emptyHeap = Inr st"
    by (simp add: startWorkerInit_def makeSlice_def emptyHeap_def st_def)
  have ok: "sliceOk (w_heap st) (w_buf st)" and nr: "\<not> w_returned st"
    and sp: "w_spawned st = []" and rd: "sliceRead (w_heap st) (w_buf st) = []"
    using startWorkerInit_ok [OF i] by simp_all
  have full: "int (s_len (w_buf st) + length xs) = sint (1200 :: 64 word)"
    by (simp add: st_def xs_def)
  have ne: "xs \<noteq> []" by (simp add: xs_def)
  define st' where "st' = workerLoop 1200 st (map Received xs)"
  obtain sl where sl: "w_spawned st' = [sl]" "sliceRead (w_heap st') sl = xs"
    using worker_batch [OF ok nr full ne] sp rd by (auto simp: Let_def st'_def)
  have run: "\<And>w :: nat createInBatches.
      sysRun w 1200 (sysInit st 0) (map Select (map Received xs) @ [RunFlush 0]) =
      sysStep w 1200 ((sysInit st 0)\<lparr>sy_worker := st'\<rparr>) (RunFlush 0)"
  proof -
    fix w :: "nat createInBatches"
    have "sy_crashed (sysInit st (0 :: nat)) = None" by (simp add: sysInit_def)
    from sysRun_selects [OF this, of w 1200 "map Received xs"]
    have "sysRun w 1200 (sysInit st 0) (map Select (map Received xs)) =
        (sysInit st 0)\<lparr>sy_worker := st'\<rparr>"
      by (simp add: sysInit_def st'_def del: map_map)
    then show "sysRun w 1200 (sysInit st 0) (map Select (map Received xs) @ [RunFlush 0]) =
      sysStep w 1200 ((sysInit st 0)\<lparr>sy_worker := st'\<rparr>) (RunFlush 0)"
      by (simp only: sysRun_snoc)
  qed
  have gf: "attemptsMade (snd (snd (flushGoroutine failWriter 0 xs))) = [1, 2, 3]
      \<and> fst (flushGoroutine failWriter 0 xs) = Returns ()"
    by (simp add: xs_def flushGoroutine_def deferredRecover_def retryLoop.simps
        flushWithRetry_def flushChunks.simps failWriter_def Let_def)
  have go: "map length (createdChunks (snd (snd (flushGoroutine okWriter 0 xs)))) = [500, 500, 200]
      \<and> fst (flushGoroutine okWriter 0 xs) = Returns ()"
    by (simp add: xs_def flushGoroutine_def deferredRecover_def retryLoop.simps
        flushWithRetry_def flushChunks.simps okWriter_def Let_def)
  have ef: "sy_events (sysStep failWriter 1200 ((sysInit st 0)\<lparr>sy_worker := st'\<rparr>) (RunFlush 0))
      = snd (snd (flushGoroutine failWriter 0 xs))"
    using gf sl by (cases "flushGoroutine failWriter 0 xs") (simp add: sysInit_def)
  have eo: "sy_events (sysStep okWriter 1200 ((sysInit st 0)\<lparr>sy_worker := st'\<rparr>) (RunFlush 0))
      = snd (snd (flushGoroutine okWriter 0 xs))"
    using go sl by (cases "flushGoroutine okWriter 0 xs") (simp add: sysInit_def)
  have cv: "3 \<notin> configValues cfgLarge \<and> 500 \<notin> configValues cfgLarge"
    by (simp add: configValues_def cfgLarge_def)
  have f: "attemptsMade (sy_events (sysRun failWriter 1200 (sysInit st 0)
      (map Select (map Received xs) @ [RunFlush 0]))) = [1, 2, 3]"
    using gf by (simp only: run ef)
  have g: "map length (createdChunks (sy_events (sysRun okWriter 1200 (sysInit st 0)
      (map Select (map Received xs) @ [RunFlush 0])))) = [500, 500, 200]"
    using go by (simp only: run eo)
  show ?thesis
    unfolding xs_def [symmetric] s i
    using f g cv by (simp add: i Let_def del: map_map)
qed

end
